theory Spec2Isabelle
  imports Main "HOL-Library.Sublist"
begin

section \<open>Bytes, C strings and the calls into the C library\<close>

text \<open>
  The program is the single file \<open>src/main.c\<close>, a small interactive shell. A C string
  is modelled as \<open>string\<close>, the list of its bytes before the terminating NUL; a region
  of memory (the edit buffer) is a \<open>char list\<close> with one element per byte, NULs
  included. C \<open>int\<close>s are modelled as \<open>int\<close>. The counters of the history are bounded
  by \<open>HISTORY_MAX\<close>; \<open>position\<close> and \<open>bufsize\<close> of the line editor grow with the input,
  and where the source increments them the model compares the result with \<open>INT_MAX\<close>:
  signed overflow is undefined behaviour in C.
\<close>

definition NUL :: char where "NUL = CHR 0x00"
definition BS :: char where "BS = CHR 0x08"
definition TAB :: char where "TAB = CHR 0x09"
definition LF :: char where "LF = CHR 0x0A"
definition CR :: char where "CR = CHR 0x0D"
definition ESC :: char where "ESC = CHR 0x1B"
definition DQ :: char where "DQ = CHR 0x22"
definition DEL :: char where "DEL = CHR 0x7F"

definition EXIT_FAILURE :: int where "EXIT_FAILURE = 1"
definition INT_MAX :: int where "INT_MAX = 2147483647"

text \<open>
  Where the source has undefined behaviour the model has a \<open>fault\<close>: a history index
  outside \<open>0 .. count - 1\<close>, a write past the end of an allocated array, a read past
  the end of the edit buffer, a \<open>readdir\<close> on the \<open>NULL\<close> of a failed \<open>opendir\<close>, the
  overflow of an \<open>int\<close>. The source checks none of these; the model does, so that
  their absence is a theorem and not an assumption.
\<close>

datatype fault = HistoryIndex | BufferOverflow | BufferOverread | NullPointer | IntOverflow

text \<open>
  What the program does to the outside world is recorded as a list of calls, in the
  order they are made: \<open>printf\<close> and \<open>fprintf(stderr, ...)\<close> with their format string
  and arguments, \<open>perror\<close>, and the system calls that change something.
\<close>

datatype fmt_arg = Str string | Num int | Chr char

datatype effect =
    Printf string "fmt_arg list"
  | Eprintf string "fmt_arg list"
  | Perror string
  | Chdir string
  | Fopen string string
  | Fprintf string string "fmt_arg list"
  | Remove string
  | Fork
  | Execvp string "string list"
  | Waitpid

text \<open>\<open>strncmp(s1, s2, n)\<close>: the difference of the first bytes that differ among the
  first \<open>n\<close>, the end of a string counting as the byte 0.\<close>

fun strncmp :: "string \<Rightarrow> string \<Rightarrow> nat \<Rightarrow> int" where
  "strncmp s1 s2 0 = 0"
| "strncmp [] [] (Suc n) = 0"
| "strncmp [] (b # s2) (Suc n) = 0 - of_char b"
| "strncmp (a # s1) [] (Suc n) = of_char a"
| "strncmp (a # s1) (b # s2) (Suc n) =
     (if a = b then strncmp s1 s2 n else of_char a - of_char b)"

text \<open>\<open>strstr(haystack, needle) != NULL\<close>.\<close>

primrec strstr :: "string \<Rightarrow> string \<Rightarrow> bool" where
  "strstr [] needle = (needle = [])"
| "strstr (c # haystack) needle = (prefix needle (c # haystack) \<or> strstr haystack needle)"

text \<open>The C string that starts at the beginning of a memory region. When the region
  holds no NUL, \<open>strlen\<close> and \<open>strcpy\<close> read past its end: there is no result.\<close>

definition c_str :: "char list \<Rightarrow> string option" where
  "c_str mem = (if NUL \<in> set mem then Some (takeWhile (\<lambda>c. c \<noteq> NUL) mem) else None)"

text \<open>The bytes of a buffer that \<open>fgets\<close> filled, seen as a C string.\<close>

definition as_c_str :: "string \<Rightarrow> string" where
  "as_c_str buf = takeWhile (\<lambda>c. c \<noteq> NUL) buf"

text \<open>\<open>strcpy(dest, src)\<close> writes the bytes of \<open>src\<close> and a NUL over the beginning of
  \<open>dest\<close> and leaves the rest of \<open>dest\<close> as it was. It makes no bounds check; when
  \<open>src\<close> and its NUL do not fit, the copy runs past the end of \<open>dest\<close> and the model
  has no result.\<close>

definition strcpy :: "char list \<Rightarrow> string \<Rightarrow> char list option" where
  "strcpy dest src =
     (if length src < length dest
      then Some (src @ NUL # drop (length src + 1) dest)
      else None)"

text \<open>Memory that \<open>malloc\<close> or \<open>realloc\<close> hands out has indeterminate content: \<open>g\<close>
  gives the byte found at each offset.\<close>

definition fresh_bytes :: "(nat \<Rightarrow> char) \<Rightarrow> nat \<Rightarrow> char list" where
  "fresh_bytes g n = map g [0..<n]"

text \<open>\<open>fgets(buffer, n, fp)\<close> on a stream with the bytes \<open>stream\<close> left: at most
  \<open>n - 1\<close> bytes are read, stopping after a line feed; \<open>NULL\<close> when nothing is left.
  The result is the bytes read and the rest of the stream.\<close>

fun fgets_bytes :: "nat \<Rightarrow> string \<Rightarrow> string \<times> string" where
  "fgets_bytes 0 stream = ([], stream)"
| "fgets_bytes (Suc n) [] = ([], [])"
| "fgets_bytes (Suc n) (c # stream) =
     (if c = LF then ([c], stream)
      else (let (buf, rest) = fgets_bytes n stream in (c # buf, rest)))"

definition fgets :: "nat \<Rightarrow> string \<Rightarrow> (string \<times> string) option" where
  "fgets n stream = (if stream = [] then None else Some (fgets_bytes (n - 1) stream))"

text \<open>The loop \<open>while (fgets(buffer, sizeof(buffer), fp))\<close> with its buffer of 1024
  bytes (\<open>history_load\<close>, \<open>lsh_cat\<close>, \<open>lsh_grep\<close>): the buffers it delivers, in order.\<close>

function fgets_all :: "string \<Rightarrow> string list" where
  "fgets_all stream =
     (case fgets 1024 stream of
        None \<Rightarrow> []
      | Some (buf, rest) \<Rightarrow> buf # fgets_all rest)"
  by pat_completeness auto
termination
proof (relation "measure length")
  show "wf (measure length)" by simp
next
  fix stream :: string and x2 buf rest
  assume a: "fgets 1024 stream = Some x2" "(buf, rest) = x2"
  have le: "length (snd (fgets_bytes n s)) \<le> length s" for n s
    by (induction n s rule: fgets_bytes.induct) (auto split: prod.splits)
  from a obtain c s where s: "stream = c # s" and r: "(buf, rest) = fgets_bytes 1023 (c # s)"
    by (cases stream) (auto simp: fgets_def split: if_splits)
  have "length rest \<le> length s"
  proof (cases "c = LF")
    case True
    with r show ?thesis by (simp add: eval_nat_numeral)
  next
    case False
    with r have "rest = snd (fgets_bytes 1022 s)"
      by (simp add: eval_nat_numeral split: prod.splits)
    then show ?thesis using le by simp
  qed
  then show "(rest, stream) \<in> measure length"
    using s by simp
qed

declare fgets_all.simps [simp del]

section \<open>The operating system as the program sees it\<close>

text \<open>
  One record holds the answers of the system calls whose result the program tests:
  \<^item> \<open>alloc n\<close>: the answer to \<open>malloc\<close>/\<open>realloc\<close> of the edit buffer with \<open>n\<close> bytes
    (\<open>None\<close> is \<open>NULL\<close>, \<open>Some g\<close> the content of the fresh bytes);
  \<^item> \<open>opendir path\<close>: the names \<open>readdir\<close> delivers, in its order, or \<open>None\<close>;
  \<^item> \<open>fopen_read path\<close>: the content of the file, \<open>None\<close> when it cannot be opened;
  \<^item> \<open>fopen_write path\<close>: whether the file can be opened for writing or appending;
  \<^item> \<open>fork\<close>: the pid that \<open>fork\<close> returns in the process that runs the model;
  \<^item> \<open>waitpid\<close>: the states that successive \<open>waitpid\<close> calls report for the child.
  The allocations whose result the source does not test (\<open>history_init\<close>, \<open>strdup\<close>,
  the array of \<open>get_completions\<close>) are taken to succeed.
\<close>

datatype wstatus = WExited | WSignaled | WStopped

record os =
  alloc :: "int \<Rightarrow> (nat \<Rightarrow> char) option"
  chdir_ok :: "string \<Rightarrow> bool"
  opendir :: "string \<Rightarrow> string list option"
  getcwd :: "string option"
  fopen_read :: "string \<Rightarrow> string option"
  fopen_write :: "string \<Rightarrow> bool"
  remove_ok :: "string \<Rightarrow> bool"
  fork :: int
  execvp_ok :: bool
  waitpid :: "wstatus list"

section \<open>The history store\<close>

text \<open>
  The \<open>History\<close> struct keeps its three fields. The array \<open>commands\<close> is a list with
  one element per slot; the slots at and above \<open>count\<close> hold indeterminate pointers in
  C, and nothing in the program reads them, so the model fills them with the empty
  string.
\<close>

definition HISTORY_MAX :: int where
  "HISTORY_MAX = 1000"

record History =
  commands :: "string list"
  count :: int
  capacity :: int

text \<open>\<open>history_init\<close> (lines 508-514). The two \<open>malloc\<close> results are not checked by
  the source; the model assumes they succeed.\<close>

definition history_init :: History where
  "history_init =
     \<lparr>commands = replicate (nat HISTORY_MAX) [], count = 0, capacity = HISTORY_MAX\<rparr>"

text \<open>The loop of lines 520-522: \<open>for (i = 0; i < count - 1; i++) commands[i] = commands[i + 1]\<close>,
  started at index \<open>i\<close> with \<open>n = count\<close>.\<close>

function shift_commands :: "int \<Rightarrow> int \<Rightarrow> string list \<Rightarrow> string list" where
  "shift_commands i n cs =
     (if i < n - 1 then shift_commands (i + 1) n (cs[nat i := cs ! nat (i + 1)]) else cs)"
  by pat_completeness auto
termination
  by (relation "measure (\<lambda>(i, n, cs). nat (n - 1 - i))") auto

declare shift_commands.simps [simp del]

text \<open>\<open>history_add\<close> (lines 516-526). There is no test of \<open>command\<close> in it: whatever
  string it is given is duplicated and stored.\<close>

definition history_add :: "History \<Rightarrow> string \<Rightarrow> History" where
  "history_add hist command =
     (let hist1 =
        (if count hist \<ge> capacity hist
         then hist\<lparr>commands := shift_commands 0 (count hist) (commands hist),
                   count := count hist - 1\<rparr>
         else hist)
      in hist1\<lparr>commands := (commands hist1)[nat (count hist1) := command],
                count := count hist1 + 1\<rparr>)"

text \<open>The stored sequence: the slots \<open>0 .. count - 1\<close>, which is what \<open>lsh_history\<close>,
  \<open>history_save\<close> and the recall of \<open>lsh_read_line\<close> read.\<close>

definition history_entries :: "History \<Rightarrow> string list" where
  "history_entries hist = take (nat (count hist)) (commands hist)"

text \<open>The states the program can be in: the array has \<open>HISTORY_MAX\<close> slots and
  \<open>count\<close> lies between 0 and the capacity.\<close>

definition hist_ok :: "History \<Rightarrow> bool" where
  "hist_ok hist \<longleftrightarrow>
     capacity hist = HISTORY_MAX \<and> length (commands hist) = nat HISTORY_MAX \<and>
     0 \<le> count hist \<and> count hist \<le> capacity hist"

text \<open>A sequence of appends to the store that \<open>main\<close> creates.\<close>

definition appends :: "string list \<Rightarrow> History" where
  "appends ls = foldl history_add history_init ls"

text \<open>\<open>history_save\<close> (lines 538-548); \<open>can_open\<close> tells whether \<open>fopen\<close> with mode
  \<open>"w"\<close> succeeds, \<open>file\<close> is the content of \<open>.shell_history\<close> before the call (\<open>None\<close>:
  it cannot be opened for reading). The result is the content afterwards.\<close>

fun save_lines :: "string list \<Rightarrow> string" where
  "save_lines [] = []"
| "save_lines (c # cs) = c @ [LF] @ save_lines cs"

definition history_save :: "bool \<Rightarrow> History \<Rightarrow> string option \<Rightarrow> string option \<times> effect list" where
  "history_save can_open hist file =
     (if \<not> can_open then (file, [Perror ''lsh: history save''])
      else (Some (save_lines (history_entries hist)), []))"

text \<open>\<open>history_load\<close> (lines 550-560). \<open>buffer[strcspn(buffer, "\n")] = 0\<close> ends the
  C string in the buffer at its first line feed: \<open>chomp\<close> is what \<open>history_add\<close> then
  duplicates.\<close>

definition chomp :: "string \<Rightarrow> string" where
  "chomp buf = takeWhile (\<lambda>c. c \<noteq> LF \<and> c \<noteq> NUL) buf"

definition history_load :: "History \<Rightarrow> string option \<Rightarrow> History" where
  "history_load hist file =
     (case file of
        None \<Rightarrow> hist
      | Some stream \<Rightarrow> foldl (\<lambda>h buf. history_add h (chomp buf)) hist (fgets_all stream))"

section \<open>The builtin table and the completion engine\<close>

definition builtin_str :: "string list" where
  "builtin_str =
     [''cd'', ''help'', ''exit'', ''ls'', ''pwd'', ''clear'', ''history'', ''cat'', ''grep'',
      ''touch'', ''echo'', ''rm'']"

definition lsh_num_builtins :: nat where
  "lsh_num_builtins = length builtin_str"

definition LSH_TOK_BUFSIZE :: int where
  "LSH_TOK_BUFSIZE = 64"

text \<open>The loop of lines 578-582 over the rest \<open>bs\<close> of the builtin table, and the loop
  of lines 589-593 over the names that \<open>readdir\<close> still has to deliver; \<open>completions\<close>
  is the array filled so far, \<open>count\<close> its length.\<close>

fun match_builtins :: "string \<Rightarrow> string list \<Rightarrow> string list \<Rightarrow> string list" where
  "match_builtins partial [] completions = completions"
| "match_builtins partial (b # bs) completions =
     match_builtins partial bs
       (if strncmp partial b (length partial) = 0 then completions @ [b] else completions)"

fun match_entries :: "string \<Rightarrow> string list \<Rightarrow> string list \<Rightarrow> string list" where
  "match_entries partial [] completions = completions"
| "match_entries partial (e # es) completions =
     (if int (length completions) < LSH_TOK_BUFSIZE
      then match_entries partial es
             (if strncmp partial e (length partial) = 0 then completions @ [e] else completions)
      else completions)"

text \<open>\<open>get_completions\<close> (lines 572-607), given the names \<open>dir\<close> that \<open>readdir\<close> delivers
  for the current directory. The result is the candidate list and what is printed.
  The array has \<open>LSH_TOK_BUFSIZE\<close> = 64 slots (line 573), and line 605 stores the closing
  \<open>NULL\<close> at \<open>completions[count]\<close>: when the two loops have filled all 64 slots, this
  store is one slot past the array, and \<open>free_completions\<close> reads it back (line 611).
  There the result is a fault. The candidates are printed (lines 597-603) before the
  store.\<close>

definition get_completions ::
  "string \<Rightarrow> string list \<Rightarrow> (fault + string list) \<times> effect list" where
  "get_completions partial dir =
     (let completions = match_entries partial dir (match_builtins partial builtin_str []);
          shown =
            (if length completions > 1
             then [Printf [LF] []] @ map (\<lambda>c. Printf ''%s '' [Str c]) completions @
                  [Printf (LF # ''> %s'') [Str partial]]
             else [])
      in (if int (length completions) < LSH_TOK_BUFSIZE then Inr completions
          else Inl BufferOverflow,
          shown))"

section \<open>The terminal and the line editor\<close>

text \<open>
  Of \<open>struct termios\<close> the program touches the two bits \<open>ICANON\<close> and \<open>ECHO\<close> of
  \<open>c_lflag\<close>; the record keeps them as booleans. The state of the shell is the global
  \<open>shell_history\<close>, the global \<open>orig_termios\<close>, the attributes the terminal has now, and
  the calls made so far. \<open>tcgetattr\<close> and \<open>tcsetattr\<close> are taken to succeed, as the
  source does.
\<close>

definition LSH_RL_BUFSIZE :: int where "LSH_RL_BUFSIZE = 1024"

record termios =
  ICANON :: bool
  ECHO :: bool

record shell =
  shell_history :: History
  orig_termios :: termios
  tty :: termios
  trace :: "effect list"

record editor =
  bufsize :: int
  position :: int
  buffer :: "char list"
  history_pos :: int

text \<open>The local variables of \<open>lsh_read_line\<close> are the record \<open>editor\<close>. One turn of
  its loop ends in a \<open>step\<close>: the loop goes on, the function returns the line, the
  process exits, or the turn has undefined behaviour in C.\<close>

datatype step = Continue shell editor | Returned string shell | Exited int shell | Fault fault

datatype outcome = Return string shell "char list" | Exit int shell | Hang | Undefined fault

text \<open>A call is appended to the record of calls.\<close>

definition emit :: "effect \<Rightarrow> shell \<Rightarrow> shell" where
  "emit e w = w\<lparr>trace := trace w @ [e]\<rparr>"

text \<open>\<open>enable_raw_mode\<close> and \<open>disable_raw_mode\<close> (lines 50-59).\<close>

definition enable_raw_mode :: "shell \<Rightarrow> shell" where
  "enable_raw_mode w =
     (let w1 = w\<lparr>orig_termios := tty w\<rparr>;
          raw = (orig_termios w1)\<lparr>ICANON := False, ECHO := False\<rparr>
      in w1\<lparr>tty := raw\<rparr>)"

definition disable_raw_mode :: "shell \<Rightarrow> shell" where
  "disable_raw_mode w = w\<lparr>tty := orig_termios w\<rparr>"

text \<open>Lines 108-110 and 117-119: \<open>strcpy\<close> of the history entry at \<open>history_pos\<close> into
  the buffer, the \<open>printf\<close> with the format \<open>fmt\<close>, and \<open>position = strlen(buffer)\<close>.
  The length is below the size of the buffer, so it is a value of \<open>int\<close> whenever
  \<open>bufsize\<close> is.\<close>

definition recall :: "string \<Rightarrow> shell \<Rightarrow> editor \<Rightarrow> step" where
  "recall fmt w s =
     (if 0 \<le> history_pos s \<and> history_pos s < count (shell_history w)
      then (case strcpy (buffer s) (commands (shell_history w) ! nat (history_pos s)) of
              None \<Rightarrow> Fault BufferOverflow
            | Some buf \<Rightarrow>
                (case c_str buf of
                   None \<Rightarrow> Fault BufferOverread
                 | Some line \<Rightarrow>
                     Continue (emit (Printf fmt [Str line]) w)
                       (s\<lparr>buffer := buf, position := int (length line)\<rparr>)))
      else Fault HistoryIndex)"

text \<open>The up arrow (lines 105-113) and the down arrow (lines 114-128). The second
  test of the down arrow is the one of the source: the same condition again.\<close>

definition arrow_up :: "shell \<Rightarrow> editor \<Rightarrow> step" where
  "arrow_up w s =
     (if history_pos s > 0
      then recall (CR # ''> %s'' @ ESC # ''[K'') w (s\<lparr>history_pos := history_pos s - 1\<rparr>)
      else Continue w s)"

definition arrow_down :: "shell \<Rightarrow> editor \<Rightarrow> step" where
  "arrow_down w s =
     (if history_pos s < count (shell_history w) - 1
      then recall (CR # ''> %s'' @ ESC # ''[K]'') w (s\<lparr>history_pos := history_pos s + 1\<rparr>)
      else if history_pos s < count (shell_history w) - 1
      then Continue (emit (Printf (CR # ''> '' @ ESC # ''[K'') []) w)
             (s\<lparr>buffer := (buffer s)[0 := NUL], position := 0\<rparr>)
      else Continue w s)"

text \<open>Lines 104-130, \<open>seq0\<close> and \<open>seq1\<close> being the two bytes read after ESC.\<close>

definition escape :: "shell \<Rightarrow> editor \<Rightarrow> char \<Rightarrow> char \<Rightarrow> step" where
  "escape w s seq0 seq1 =
     (if seq0 = CHR ''[''
      then (if seq1 = CHR ''A'' then arrow_up w s
            else if seq1 = CHR ''B'' then arrow_down w s
            else Continue w s)
      else Continue w s)"

text \<open>The line feed (lines 132-140).\<close>

definition submit :: "shell \<Rightarrow> editor \<Rightarrow> step" where
  "submit w s =
     (if 0 \<le> position s \<and> position s < int (length (buffer s))
      then (let buf = (buffer s)[nat (position s) := NUL];
                w1 = disable_raw_mode (emit (Printf [LF] []) w)
            in case c_str buf of
                 None \<Rightarrow> Fault BufferOverread
               | Some line \<Rightarrow>
                   Returned line
                     (if position s > 0
                      then w1\<lparr>shell_history := history_add (shell_history w1) line\<rparr>
                      else w1))
      else Fault BufferOverflow)"

text \<open>The tab key (lines 142-151). \<open>get_completions(buffer)\<close> reads the buffer as a C
  string, whatever \<open>position\<close> is.\<close>

definition tab :: "os \<Rightarrow> shell \<Rightarrow> editor \<Rightarrow> step" where
  "tab e w s =
     (case (c_str (buffer s), opendir e ''.'') of
        (None, _) \<Rightarrow> Fault BufferOverread
      | (Some partial, None) \<Rightarrow> Fault NullPointer
      | (Some partial, Some dir) \<Rightarrow>
          (case get_completions partial dir of
             (Inl f, shown) \<Rightarrow> Fault f
           | (Inr completions, shown) \<Rightarrow>
               (let w1 = w\<lparr>trace := trace w @ shown\<rparr>
                in case completions of
                     [] \<Rightarrow> Continue w1 s
                   | first # others \<Rightarrow>
                       (case strcpy (buffer s) first of
                          None \<Rightarrow> Fault BufferOverflow
                        | Some buf \<Rightarrow>
                            (case c_str buf of
                               None \<Rightarrow> Fault BufferOverread
                             | Some line \<Rightarrow>
                                 Continue (emit (Printf (CR # ''> %s'') [Str line]) w1)
                                   (s\<lparr>buffer := buf, position := int (length line)\<rparr>))))))"

text \<open>Backspace (lines 153-159).\<close>

definition backspace :: "shell \<Rightarrow> editor \<Rightarrow> step" where
  "backspace w s =
     (if position s > 0
      then Continue (emit (Printf (BS # '' '' @ [BS]) []) w) (s\<lparr>position := position s - 1\<rparr>)
      else Continue w s)"

text \<open>Lines 169-176: the reallocation when \<open>position\<close> has reached \<open>bufsize\<close>.
  \<open>bufsize += LSH_RL_BUFSIZE\<close> is an addition of \<open>int\<close>s: past \<open>INT_MAX\<close> it overflows.\<close>

definition grow :: "os \<Rightarrow> shell \<Rightarrow> editor \<Rightarrow> step" where
  "grow e w s =
     (if position s \<ge> bufsize s
      then (if bufsize s + LSH_RL_BUFSIZE > INT_MAX then Fault IntOverflow
            else (let n = bufsize s + LSH_RL_BUFSIZE
                  in case alloc e n of
                       None \<Rightarrow>
                         Exited EXIT_FAILURE
                           (emit (Eprintf (''lsh: allocation error'' @ [LF]) []) w)
                     | Some g \<Rightarrow>
                         Continue w
                           (s\<lparr>bufsize := n,
                              buffer := buffer s @ fresh_bytes g (nat n - length (buffer s))\<rparr>)))
      else Continue w s)"

text \<open>Lines 161-176, reached by every byte that is none of ESC, line feed, tab and
  127: a byte from 32 on is stored, the others are not, and the test for growth
  follows in both cases. \<open>position++\<close> is an increment of an \<open>int\<close>.\<close>

definition insert_char :: "os \<Rightarrow> shell \<Rightarrow> editor \<Rightarrow> int \<Rightarrow> step" where
  "insert_char e w s c =
     (if c \<ge> 32
      then (if 0 \<le> position s \<and> position s < int (length (buffer s))
            then (if position s + 1 > INT_MAX then Fault IntOverflow
                  else grow e (emit (Printf ''%c'' [Chr (char_of c)]) w)
                         (s\<lparr>buffer := (buffer s)[nat (position s) := char_of c],
                            position := position s + 1\<rparr>))
            else Fault BufferOverflow)
      else grow e w s)"

text \<open>The turn of the loop for a byte \<open>c\<close> other than ESC.\<close>

definition key :: "os \<Rightarrow> shell \<Rightarrow> editor \<Rightarrow> int \<Rightarrow> step" where
  "key e w s c =
     (if c = 10 then submit w s
      else if c = 9 then tab e w s
      else if c = 127 then backspace w s
      else insert_char e w s c)"

text \<open>The loop \<open>while (1)\<close> of lines 95-177 on the bytes that \<open>getchar\<close> will deliver.
  When they run out \<open>getchar\<close> returns \<open>EOF\<close> (-1), also for the two bytes after an ESC;
  \<open>EOF\<close> takes no branch that changes the state, returns or exits, and the next call
  returns \<open>EOF\<close> again: the loop never ends (\<open>Hang\<close>).\<close>

fun rl_loop :: "os \<Rightarrow> shell \<Rightarrow> editor \<Rightarrow> char list \<Rightarrow> outcome" where
  "rl_loop e w s [] = Hang"
| "rl_loop e w s (ch # cs) =
     (if (of_char ch :: int) = 27
      then (case cs of
              seq0 # seq1 # rest \<Rightarrow>
                (case escape w s seq0 seq1 of
                   Continue w' s' \<Rightarrow> rl_loop e w' s' rest
                 | Returned line w' \<Rightarrow> Return line w' rest
                 | Exited n w' \<Rightarrow> Exit n w'
                 | Fault f \<Rightarrow> Undefined f)
            | _ \<Rightarrow> Hang)
      else (case key e w s (of_char ch) of
              Continue w' s' \<Rightarrow> rl_loop e w' s' cs
            | Returned line w' \<Rightarrow> Return line w' cs
            | Exited n w' \<Rightarrow> Exit n w'
            | Fault f \<Rightarrow> Undefined f))"

text \<open>\<open>lsh_read_line\<close> (lines 80-178).\<close>

definition lsh_read_line :: "os \<Rightarrow> shell \<Rightarrow> char list \<Rightarrow> outcome" where
  "lsh_read_line e w input =
     (case alloc e LSH_RL_BUFSIZE of
        None \<Rightarrow> Exit EXIT_FAILURE (emit (Eprintf (''lsh: allocation error'' @ [LF]) []) w)
      | Some g \<Rightarrow>
          rl_loop e (enable_raw_mode w)
            \<lparr>bufsize = LSH_RL_BUFSIZE, position = 0,
             buffer = fresh_bytes g (nat LSH_RL_BUFSIZE),
             history_pos = count (shell_history w)\<rparr>
            input)"

section \<open>The builtins and the dispatcher\<close>

text \<open>
  A builtin gets the token list \<open>args\<close> (the array without its closing \<open>NULL\<close>, so
  \<open>args[i] == NULL\<close> is \<open>arg args i = None\<close>) and returns its \<open>int\<close> and the calls it made.
  A call of \<open>lsh_execute\<close> ends by returning, or, in the child of \<open>fork\<close>, with the
  process exiting or replaced by \<open>execvp\<close>, or it waits for ever for a child that
  never terminates.
\<close>

datatype status = Returns int | Exits int | Replaced | Blocked

type_synonym builtin = "os \<Rightarrow> History \<Rightarrow> string list \<Rightarrow> status \<times> effect list"

text \<open>\<open>args[i]\<close>, \<open>None\<close> being the closing \<open>NULL\<close>. The builtins read \<open>args[i + 1]\<close> only
  after they found \<open>args[i]\<close> not to be \<open>NULL\<close>.\<close>

definition arg :: "string list \<Rightarrow> nat \<Rightarrow> string option" where
  "arg args i = (if i < length args then Some (args ! i) else None)"

text \<open>The twelve builtins (lines 299-487 and 563-568), in the order of the table. A
  loop that prints one line per element of an array or per buffer read is the \<open>map\<close>
  of its \<open>printf\<close> over them.\<close>

definition lsh_cd :: builtin where
  "lsh_cd os hist args =
     (case arg args 1 of
        None \<Rightarrow>
          (Returns 1, [Eprintf (''lsh: expected argument to '' @ DQ # ''cd'' @ [DQ, LF]) []])
      | Some dir \<Rightarrow>
          (Returns 1, Chdir dir # (if chdir_ok os dir then [] else [Perror ''lsh''])))"

definition lsh_help :: builtin where
  "lsh_help os hist args =
     (Returns 1,
      [Printf (''Based off Stephen Brennan's LSH'' @ [LF]) [],
       Printf (''Type program names and arguments, and hit enter.'' @ [LF]) [],
       Printf (''The following are built in:'' @ [LF]) []] @
      map (\<lambda>b. Printf ('' %s'' @ [LF]) [Str b]) builtin_str @
      [Printf (''Use the man command for information on other programs.'' @ [LF]) []])"

definition lsh_exit :: builtin where
  "lsh_exit os hist args = (Returns 0, [])"

text \<open>The test of line 349: the entry starts with a dot, and \<open>args[1]\<close> is missing or
  is not \<open>-a\<close>.\<close>

definition hidden_skipped :: "string list \<Rightarrow> string \<Rightarrow> bool" where
  "hidden_skipped args d_name =
     ((case d_name of [] \<Rightarrow> False | c # cs \<Rightarrow> c = CHR ''.'') \<and>
      (arg args 1 = None \<or> arg args 1 \<noteq> Some ''-a''))"

definition lsh_ls :: builtin where
  "lsh_ls os hist args =
     (let path = (case arg args 1 of Some p \<Rightarrow> p | None \<Rightarrow> ''.'')
      in case opendir os path of
           None \<Rightarrow> (Returns 1, [Perror ''lsh''])
         | Some entries \<Rightarrow>
             (Returns 1,
              map (\<lambda>d. Printf (''%s'' @ [LF]) [Str d])
                (filter (\<lambda>d. \<not> hidden_skipped args d) entries)))"

definition lsh_pwd :: builtin where
  "lsh_pwd os hist args =
     (case getcwd os of
        Some cwd \<Rightarrow> (Returns 1, [Printf (''%s'' @ [LF]) [Str cwd]])
      | None \<Rightarrow> (Returns 1, [Perror ''lsh'']))"

definition lsh_clear :: builtin where
  "lsh_clear os hist args = (Returns 1, [Printf (ESC # ''[2J'' @ ESC # ''[H'') []])"

fun history_lines :: "int \<Rightarrow> string list \<Rightarrow> effect list" where
  "history_lines i [] = []"
| "history_lines i (c # cs) =
     Printf (''%d %s'' @ [LF]) [Num (i + 1), Str c] # history_lines (i + 1) cs"

definition lsh_history :: builtin where
  "lsh_history os hist args = (Returns 1, history_lines 0 (history_entries hist))"

definition lsh_cat :: builtin where
  "lsh_cat os hist args =
     (case arg args 1 of
        None \<Rightarrow>
          (Returns 1, [Eprintf (''lsh: expected argument to '' @ DQ # ''cat'' @ [DQ, LF]) []])
      | Some path \<Rightarrow>
          (case fopen_read os path of
             None \<Rightarrow> (Returns 1, [Perror ''lsh''])
           | Some stream \<Rightarrow>
               (Returns 1, map (\<lambda>buf. Printf ''%s'' [Str (as_c_str buf)]) (fgets_all stream))))"

text \<open>The loop of lines 418-423, \<open>line_number\<close> counting the buffers read.\<close>

fun grep_lines :: "string \<Rightarrow> int \<Rightarrow> string list \<Rightarrow> effect list" where
  "grep_lines pattern line_number [] = []"
| "grep_lines pattern line_number (buf # bufs) =
     (if strstr (as_c_str buf) pattern
      then [Printf ''%d: %s'' [Num line_number, Str (as_c_str buf)]]
      else []) @
     grep_lines pattern (line_number + 1) bufs"

definition lsh_grep :: builtin where
  "lsh_grep os hist args =
     (if arg args 1 = None \<or> arg args 2 = None
      then (Returns 1, [Eprintf (''lsh: grep requires pattern and filename'' @ [LF]) []])
      else (case fopen_read os (args ! 2) of
              None \<Rightarrow> (Returns 1, [Perror ''lsh''])
            | Some stream \<Rightarrow> (Returns 1, grep_lines (args ! 1) 1 (fgets_all stream))))"

definition lsh_touch :: builtin where
  "lsh_touch os hist args =
     (case arg args 1 of
        None \<Rightarrow> (Returns 1, [Eprintf (''lsh: touch requires a filename'' @ [LF]) []])
      | Some path \<Rightarrow>
          (if fopen_write os path then (Returns 1, [Fopen path ''a''])
           else (Returns 1, [Fopen path ''a'', Perror ''lsh''])))"

text \<open>\<open>lsh_echo\<close> (lines 445-473): \<open>words\<close> are the tokens printed by the loop of lines
  452-455, which stops at \<open>NULL\<close> or at the token \<open>>\<close>; \<open>i\<close> is the index it stops at.\<close>

definition lsh_echo :: builtin where
  "lsh_echo os hist args =
     (case arg args 1 of
        None \<Rightarrow> (Returns 1, [Printf [LF] []])
      | Some first \<Rightarrow>
          (let words = takeWhile (\<lambda>a. a \<noteq> ''>'') (drop 1 args);
               i = 1 + length words;
               printed = map (\<lambda>a. Printf ''%s '' [Str a]) words
           in if arg args i = Some ''>'' \<and> arg args (i + 1) \<noteq> None
              then (if fopen_write os (args ! (i + 1))
                    then (Returns 1,
                          printed @ [Fopen (args ! (i + 1)) ''w''] @
                          map (\<lambda>a. Fprintf (args ! (i + 1)) ''%s '' [Str a]) words)
                    else (Returns 1,
                          printed @ [Fopen (args ! (i + 1)) ''w'', Perror ''lsh'']))
              else (Returns 1, printed @ [Printf [LF] []])))"

definition lsh_rm :: builtin where
  "lsh_rm os hist args =
     (case arg args 1 of
        None \<Rightarrow> (Returns 1, [Eprintf (''lsh: rm requires a filename'' @ [LF]) []])
      | Some path \<Rightarrow>
          (if remove_ok os path then (Returns 1, [Remove path])
           else (Returns 1, [Remove path, Perror ''lsh''])))"

text \<open>The table \<open>builtin_func\<close> (lines 278-291), parallel to \<open>builtin_str\<close>.\<close>

definition builtin_func :: "builtin list" where
  "builtin_func =
     [lsh_cd, lsh_help, lsh_exit, lsh_ls, lsh_pwd, lsh_clear, lsh_history, lsh_cat, lsh_grep,
      lsh_touch, lsh_echo, lsh_rm]"

text \<open>\<open>lsh_launch\<close> (lines 228-256). The loop of lines 250-253 calls \<open>waitpid\<close> until
  the child is reported as exited or killed by a signal; when the reports run out
  the parent stays blocked in \<open>waitpid\<close>. In the child (\<open>fork\<close> returned 0) \<open>execvp\<close>
  replaces the process or, failing, is followed by \<open>exit(EXIT_FAILURE)\<close>.\<close>

fun wait_child :: "wstatus list \<Rightarrow> status \<times> effect list" where
  "wait_child [] = (Blocked, [Waitpid])"
| "wait_child (st # sts) =
     (if st \<noteq> WExited \<and> st \<noteq> WSignaled
      then (let (r, calls) = wait_child sts in (r, Waitpid # calls))
      else (Returns 1, [Waitpid]))"

definition lsh_launch :: "os \<Rightarrow> string list \<Rightarrow> status \<times> effect list" where
  "lsh_launch os args =
     (if fork os = 0
      then (if execvp_ok os then (Replaced, [Fork, Execvp (args ! 0) args])
            else (Exits EXIT_FAILURE, [Fork, Execvp (args ! 0) args, Perror ''lsh'']))
      else if fork os < 0 then (Returns 1, [Fork, Perror ''lsh''])
      else (let (r, calls) = wait_child (waitpid os) in (r, Fork # calls)))"

text \<open>\<open>lsh_execute\<close> (lines 490-505); \<open>find_builtin i\<close> is its loop from index \<open>i\<close> on.
  \<open>strcmp(args[0], builtin_str[i]) == 0\<close> is the equality of the two strings.\<close>

function find_builtin :: "nat \<Rightarrow> os \<Rightarrow> History \<Rightarrow> string list \<Rightarrow> status \<times> effect list" where
  "find_builtin i os hist args =
     (if i < lsh_num_builtins
      then (if args ! 0 = builtin_str ! i then (builtin_func ! i) os hist args
            else find_builtin (i + 1) os hist args)
      else lsh_launch os args)"
  by pat_completeness auto
termination
  by (relation "measure (\<lambda>(i, os, hist, args). lsh_num_builtins - i)") auto

definition lsh_execute :: "os \<Rightarrow> History \<Rightarrow> string list \<Rightarrow> status \<times> effect list" where
  "lsh_execute os hist args =
     (if arg args 0 = None then (Returns 1, []) else find_builtin 0 os hist args)"

section \<open>Notions used to state the claims\<close>

text \<open>The states of the line editor in which every access to the buffer is in
  bounds, those among them in which \<open>bufsize\<close> is a value of a C \<open>int\<close>, and the text
  typed so far: the bytes of the buffer before the insertion point.\<close>

definition editor_ok :: "editor \<Rightarrow> bool" where
  "editor_ok s \<longleftrightarrow>
     0 \<le> position s \<and> position s < bufsize s \<and> bufsize s = int (length (buffer s))"

definition editor_fits :: "editor \<Rightarrow> bool" where
  "editor_fits s \<longleftrightarrow> editor_ok s \<and> bufsize s \<le> INT_MAX"

definition typed_so_far :: "editor \<Rightarrow> string" where
  "typed_so_far s = take (nat (position s)) (buffer s)"

text \<open>The history cursor of the line editor lies between 0 and \<open>count\<close>.\<close>

definition cursor_ok :: "shell \<Rightarrow> editor \<Rightarrow> bool" where
  "cursor_ok w s \<longleftrightarrow> 0 \<le> history_pos s \<and> history_pos s \<le> count (shell_history w)"

text \<open>Two shell states that differ at most in the record of calls.\<close>

definition same_world :: "shell \<Rightarrow> shell \<Rightarrow> bool" where
  "same_world w w' \<longleftrightarrow>
     tty w' = tty w \<and> orig_termios w' = orig_termios w \<and> shell_history w' = shell_history w"

text \<open>The specification's reading of a sequence of keys that are printable characters
  and backspaces: a printable character is put at the end of the line, a backspace
  (the byte 127) takes the last character away, if there is one.\<close>

definition apply_key :: "string \<Rightarrow> char \<Rightarrow> string" where
  "apply_key line k = (if k = DEL then butlast line else line @ [k])"

definition typed :: "char list \<Rightarrow> string" where
  "typed keys = foldl apply_key [] keys"

text \<open>Sample states: a terminal in cooked mode; the shell at its prompt after the
  lines \<open>ls\<close> were appended to a new history (\<open>orig_termios\<close> is a global and starts
  zeroed); a system in which every call succeeds, and one in which the edit buffer
  can be allocated but not enlarged.\<close>

definition cooked :: termios where
  "cooked = \<lparr>ICANON = True, ECHO = True\<rparr>"

definition session :: "string list \<Rightarrow> shell" where
  "session ls =
     \<lparr>shell_history = appends ls, orig_termios = \<lparr>ICANON = False, ECHO = False\<rparr>,
      tty = cooked, trace = []\<rparr>"

definition generous :: os where
  "generous =
     \<lparr>alloc = (\<lambda>n. Some (\<lambda>i. CHR ''?'')), chdir_ok = (\<lambda>dir. True),
      opendir = (\<lambda>path. Some [''notes.txt'', ''numbers.csv'']), getcwd = Some ''/home'',
      fopen_read = (\<lambda>path. None), fopen_write = (\<lambda>path. True), remove_ok = (\<lambda>path. True),
      fork = 4711, execvp_ok = True, waitpid = [WExited]\<rparr>"

definition starved :: os where
  "starved = generous\<lparr>alloc := (\<lambda>n. if n = LSH_RL_BUFSIZE then Some (\<lambda>i. CHR ''?'') else None)\<rparr>"

section \<open>Lemmas\<close>

subsection \<open>Lemmas on the history store\<close>

lemma length_shift_commands [simp]: "length (shift_commands i n cs) = length cs"
  by (induction i n cs rule: shift_commands.induct)
     (subst shift_commands.simps, simp)

lemma shift_commands_nth:
  "0 \<le> i \<Longrightarrow> n \<le> int (length cs) \<Longrightarrow> j < length cs \<Longrightarrow>
   shift_commands i n cs ! j =
     (if nat i \<le> j \<and> int j < n - 1 then cs ! Suc j else cs ! j)"
proof (induction i n cs rule: shift_commands.induct)
  case (1 i n cs)
  show ?case
  proof (cases "i < n - 1")
    case False
    then show ?thesis
      using "1.prems" by (subst shift_commands.simps) auto
  next
    case True
    have suc: "nat (i + 1) = Suc (nat i)"
      using "1.prems" by simp
    have "shift_commands i n cs ! j =
          shift_commands (i + 1) n (cs[nat i := cs ! nat (i + 1)]) ! j"
      using True by (subst shift_commands.simps) simp
    also have "\<dots> = (if nat (i + 1) \<le> j \<and> int j < n - 1
                     then cs[nat i := cs ! nat (i + 1)] ! Suc j
                     else cs[nat i := cs ! nat (i + 1)] ! j)"
      using True "1.prems" by (subst "1.IH") auto
    also have "\<dots> = (if nat i \<le> j \<and> int j < n - 1 then cs ! Suc j else cs ! j)"
      using True "1.prems" suc by (auto simp: nth_list_update)
    finally show ?thesis .
  qed
qed

lemma take_shift_commands:
  assumes "0 < n" "n \<le> int (length cs)"
  shows "take (nat (n - 1)) (shift_commands 0 n cs) = tl (take (nat n) cs)"
proof (rule nth_equalityI)
  show "length (take (nat (n - 1)) (shift_commands 0 n cs)) = length (tl (take (nat n) cs))"
    using assms by simp
next
  fix j assume "j < length (take (nat (n - 1)) (shift_commands 0 n cs))"
  then have j: "int j < n - 1" "j < length cs" "Suc j < nat n"
    using assms by auto
  then show "take (nat (n - 1)) (shift_commands 0 n cs) ! j = tl (take (nat n) cs) ! j"
    using assms by (simp add: shift_commands_nth nth_tl)
qed

lemma hist_ok_init: "hist_ok history_init"
  by (simp add: hist_ok_def history_init_def HISTORY_MAX_def)

lemma history_entries_init: "history_entries history_init = []"
  by (simp add: history_entries_def history_init_def)

lemma hist_ok_add: "hist_ok h \<Longrightarrow> hist_ok (history_add h c)"
  by (auto simp: hist_ok_def history_add_def Let_def HISTORY_MAX_def)

lemma history_add_below:
  assumes "hist_ok h" "count h < capacity h"
  shows "history_entries (history_add h c) = history_entries h @ [c]"
proof -
  have "nat (count h) < length (commands h)"
    using assms by (auto simp: hist_ok_def)
  moreover have "nat (count h + 1) = Suc (nat (count h))"
    using assms by (auto simp: hist_ok_def)
  ultimately show ?thesis
    using assms
    by (simp add: history_entries_def history_add_def Let_def take_Suc_conv_app_nth)
qed

lemma history_add_full:
  assumes "hist_ok h" "count h = capacity h"
  shows "history_entries (history_add h c) = tl (history_entries h) @ [c]"
proof -
  let ?n = "count h"
  let ?cs = "shift_commands 0 ?n (commands h)"
  have n: "?n = 1000" "length (commands h) = 1000"
    using assms by (auto simp: hist_ok_def HISTORY_MAX_def)
  have len: "nat (?n - 1) < length ?cs"
    using n by simp
  have "history_entries (history_add h c) = take (nat ?n) (?cs[nat (?n - 1) := c])"
    using assms by (simp add: history_entries_def history_add_def Let_def)
  also have "nat ?n = Suc (nat (?n - 1))"
    using n by simp
  also have "take (Suc (nat (?n - 1))) (?cs[nat (?n - 1) := c]) = take (nat (?n - 1)) ?cs @ [c]"
    using len by (simp add: take_Suc_conv_app_nth)
  also have "take (nat (?n - 1)) ?cs = tl (take (nat ?n) (commands h))"
    using n by (intro take_shift_commands) auto
  finally show ?thesis
    by (simp add: history_entries_def)
qed

lemma count_history_add:
  "hist_ok h \<Longrightarrow>
   count (history_add h c) = (if count h = capacity h then count h else count h + 1)"
  by (auto simp: hist_ok_def history_add_def Let_def)

lemma count_is_length: "hist_ok h \<Longrightarrow> count h = int (length (history_entries h))"
  by (auto simp: hist_ok_def history_entries_def)

lemma appends_snoc: "appends (ls @ [l]) = history_add (appends ls) l"
  by (simp add: appends_def)

lemma hist_ok_appends: "hist_ok (appends ls)"
  by (induction ls rule: rev_induct)
     (simp_all add: appends_snoc hist_ok_add, simp add: appends_def hist_ok_init)

lemma capacity_appends: "capacity (appends ls) = 1000"
  using hist_ok_appends [of ls] by (simp add: hist_ok_def HISTORY_MAX_def)

lemma entries_appends: "history_entries (appends ls) = drop (length ls - 1000) ls"
proof (induction ls rule: rev_induct)
  case Nil
  then show ?case by (simp add: appends_def history_entries_init)
next
  case (snoc l ls)
  let ?h = "appends ls"
  have ok: "hist_ok ?h" by (rule hist_ok_appends)
  have cnt: "count ?h = int (length (drop (length ls - 1000) ls))"
    using count_is_length [OF ok] snoc.IH by simp
  show ?case
  proof (cases "length ls < 1000")
    case True
    then have "count ?h < capacity ?h"
      using cnt by (simp add: capacity_appends)
    then show ?thesis
      using True snoc.IH by (simp add: appends_snoc history_add_below [OF ok])
  next
    case False
    then have full: "count ?h = capacity ?h"
      using cnt by (simp add: capacity_appends)
    have 1: "tl (drop (length ls - 1000) ls) = drop (Suc (length ls - 1000)) ls"
      by (simp only: drop_Suc tl_drop)
    have 2: "length (ls @ [l]) - 1000 = Suc (length ls - 1000)"
      using False by simp
    have 3: "Suc (length ls - 1000) - length ls = 0"
      using False by simp
    have "drop (length (ls @ [l]) - 1000) (ls @ [l]) = tl (drop (length ls - 1000) ls) @ [l]"
      unfolding 1 2 by (simp only: drop_append 3 drop_0)
    then show ?thesis
      using snoc.IH by (simp only: appends_snoc history_add_full [OF ok full])
  qed
qed

subsection \<open>Lemmas on the completion engine\<close>

lemma of_char_zero_iff: "(of_char c :: int) = 0 \<longleftrightarrow> c = NUL"
proof -
  have "(of_char c :: int) = of_char NUL \<longleftrightarrow> c = NUL"
    by (rule of_char_eq_iff)
  then show ?thesis by (simp add: NUL_def)
qed

lemma strncmp_prefix:
  "NUL \<notin> set p \<Longrightarrow> strncmp p e (length p) = 0 \<longleftrightarrow> prefix p e"
proof (induction p arbitrary: e)
  case Nil
  then show ?case by simp
next
  case (Cons a p)
  then show ?case
    by (cases e) (auto simp: of_char_zero_iff)
qed

lemma match_builtins_eq:
  "match_builtins p bs acc = acc @ filter (\<lambda>b. strncmp p b (length p) = 0) bs"
  by (induction bs arbitrary: acc) auto

lemma match_entries_eq:
  "match_entries p es acc =
     acc @ take (64 - length acc) (filter (\<lambda>e. strncmp p e (length p) = 0) es)"
proof (induction es arbitrary: acc)
  case Nil
  then show ?case by simp
next
  case (Cons e es)
  show ?case
  proof (cases "length acc < 64")
    case True
    then obtain k where k: "64 - length acc = Suc k"
      by (metis Suc_diff_Suc)
    then have "64 - length (acc @ [e]) = k" by simp
    with True k show ?thesis
      by (simp add: Cons.IH LSH_TOK_BUFSIZE_def)
  next
    case False
    then show ?thesis by (simp add: LSH_TOK_BUFSIZE_def)
  qed
qed

lemma length_builtin_matches: "length (filter P builtin_str) \<le> 12"
  using length_filter_le [of P builtin_str] by (simp add: builtin_str_def)

lemma candidates_eq:
  "match_entries p dir (match_builtins p builtin_str []) =
     take 64 (filter (\<lambda>b. strncmp p b (length p) = 0) builtin_str @
              filter (\<lambda>e. strncmp p e (length p) = 0) dir)"
  using length_builtin_matches [of "\<lambda>b. strncmp p b (length p) = 0"]
  by (simp add: match_builtins_eq match_entries_eq)

lemma completions_eq:
  "fst (get_completions p dir) =
     (if length (filter (\<lambda>b. strncmp p b (length p) = 0) builtin_str) +
         length (filter (\<lambda>e. strncmp p e (length p) = 0) dir) < 64
      then Inr (filter (\<lambda>b. strncmp p b (length p) = 0) builtin_str @
                filter (\<lambda>e. strncmp p e (length p) = 0) dir)
      else Inl BufferOverflow)"
  by (simp add: get_completions_def Let_def candidates_eq LSH_TOK_BUFSIZE_def min_def)

lemma shown_eq:
  "snd (get_completions p dir) =
     (if 1 < length (match_entries p dir (match_builtins p builtin_str []))
      then Printf [LF] [] #
           map (\<lambda>c. Printf ''%s '' [Str c])
             (match_entries p dir (match_builtins p builtin_str [])) @
           [Printf (LF # ''> %s'') [Str p]]
      else [])"
  by (simp add: get_completions_def Let_def)

lemma completions_fault: "get_completions p dir = (Inl f, shown) \<Longrightarrow> f = BufferOverflow"
  by (auto simp: get_completions_def Let_def split: if_splits)

lemma count_list_filter:
  "count_list (filter P xs) x = (if P x then count_list xs x else 0)"
  by (induction xs) auto
subsection \<open>Lemmas on saving and loading the history\<close>

lemma fgets_bytes_line:
  "LF \<notin> set l \<Longrightarrow> length l < n \<Longrightarrow> fgets_bytes n (l @ LF # rest) = (l @ [LF], rest)"
proof (induction l arbitrary: n)
  case Nil
  then show ?case by (cases n) simp_all
next
  case (Cons c l)
  then show ?case by (cases n) auto
qed

lemma fgets_bytes_full:
  "LF \<notin> set l \<Longrightarrow> fgets_bytes (length l) (l @ rest) = (l, rest)"
  by (induction l) auto

lemma fgets_all_Nil: "fgets_all [] = []"
  by (subst fgets_all.simps) (simp add: fgets_def)

lemma fgets_all_save_lines:
  "\<forall>e \<in> set es. length e \<le> 1022 \<and> LF \<notin> set e \<Longrightarrow>
   fgets_all (save_lines es) = map (\<lambda>e. e @ [LF]) es"
proof (induction es)
  case Nil
  then show ?case by (simp add: fgets_all_Nil)
next
  case (Cons e es)
  then have e: "LF \<notin> set e" "length e < 1023"
    by auto
  have "fgets 1024 (save_lines (e # es)) = Some (e @ [LF], save_lines es)"
    using fgets_bytes_line [OF e, of "save_lines es"] by (simp add: fgets_def)
  then have "fgets_all (save_lines (e # es)) = (e @ [LF]) # fgets_all (save_lines es)"
    by (subst fgets_all.simps) simp
  then show ?case
    using Cons by simp
qed

lemma chomp_line: "LF \<notin> set e \<Longrightarrow> NUL \<notin> set e \<Longrightarrow> chomp (e @ [LF]) = e"
proof -
  assume "LF \<notin> set e" "NUL \<notin> set e"
  then have "\<forall>c \<in> set e. c \<noteq> LF \<and> c \<noteq> NUL"
    by auto
  then show ?thesis
    by (simp add: chomp_def takeWhile_append2)
qed

lemma load_saved:
  assumes "\<forall>e \<in> set es. length e \<le> 1022 \<and> LF \<notin> set e \<and> NUL \<notin> set e"
  shows "history_load h (Some (save_lines es)) = foldl history_add h es"
proof -
  have "fgets_all (save_lines es) = map (\<lambda>e. e @ [LF]) es"
    using assms by (intro fgets_all_save_lines) auto
  moreover have "foldl (\<lambda>h buf. history_add h (chomp buf)) h (map (\<lambda>e. e @ [LF]) es) =
                 foldl history_add h es"
    using assms by (induction es arbitrary: h) (simp_all add: chomp_line)
  ultimately show ?thesis
    by (simp add: history_load_def)
qed

lemma length_entries_le: "hist_ok h \<Longrightarrow> length (history_entries h) \<le> 1000"
  by (simp add: hist_ok_def history_entries_def HISTORY_MAX_def)

lemma fgets_all_long:
  assumes "c \<noteq> LF"
  shows "fgets_all (replicate 1023 c @ [LF]) = [replicate 1023 c, [LF]]"
proof -
  have "fgets_bytes 1023 (replicate 1023 c @ [LF]) = (replicate 1023 c, [LF])"
    using fgets_bytes_full [of "replicate 1023 c" "[LF]"] assms by simp
  then have 1: "fgets 1024 (replicate 1023 c @ [LF]) = Some (replicate 1023 c, [LF])"
    by (simp add: fgets_def)
  have 2: "fgets 1024 [LF] = Some ([LF], [])"
    by (simp add: fgets_def eval_nat_numeral)
  show ?thesis
    by (subst fgets_all.simps, simp only: 1, simp,
        subst fgets_all.simps, simp only: 2, simp add: fgets_all_Nil)
qed

text \<open>Entries that fit the buffer of \<open>history_load\<close> with their line feed come back as
  they were saved.\<close>

lemma roundtrip_short_entries:
  assumes "hist_ok h"
    and "\<forall>e \<in> set (history_entries h). length e \<le> 1022 \<and> LF \<notin> set e \<and> NUL \<notin> set e"
  shows "history_entries (history_load history_init (fst (history_save True h file))) =
         history_entries h"
proof -
  have "history_load history_init (fst (history_save True h file)) =
        appends (history_entries h)"
    using load_saved [OF assms(2)] by (simp add: history_save_def appends_def)
  then show ?thesis
    using length_entries_le [OF assms(1)] by (simp add: entries_appends)
qed

subsection \<open>Lemmas on the line editor\<close>

lemma length_fresh_bytes [simp]: "length (fresh_bytes g n) = n"
  by (simp add: fresh_bytes_def)

lemma c_str_terminated: "NUL \<notin> set l \<Longrightarrow> c_str (l @ NUL # rest) = Some l"
proof -
  assume "NUL \<notin> set l"
  then have "\<forall>c \<in> set l. c \<noteq> NUL" by auto
  then show ?thesis
    by (simp add: c_str_def takeWhile_append2)
qed

lemma same_world_refl [simp]: "same_world w w"
  by (simp add: same_world_def)

lemma same_world_emit [simp]: "same_world w (emit x w)"
  by (simp add: same_world_def emit_def)

lemma same_world_trans: "same_world w w1 \<Longrightarrow> same_world w1 w2 \<Longrightarrow> same_world w w2"
  by (simp add: same_world_def)

lemma of_char_DEL: "(of_char k :: int) = 127 \<longleftrightarrow> k = DEL"
proof -
  have "(of_char k :: int) = of_char DEL \<longleftrightarrow> k = DEL"
    by (rule of_char_eq_iff)
  then show ?thesis by (simp add: DEL_def)
qed

lemma printable_not_NUL: "32 \<le> (of_char k :: int) \<Longrightarrow> k \<noteq> NUL"
  by (auto simp: NUL_def)

lemma backspace_typed:
  assumes "editor_fits s"
  shows "\<exists>w1 s1. backspace w s = Continue w1 s1 \<and> same_world w w1 \<and> editor_fits s1 \<and>
           bufsize s1 = bufsize s \<and> position s1 \<le> position s \<and>
           typed_so_far s1 = butlast (typed_so_far s)"
proof (cases "position s > 0")
  case True
  have "nat (position s) \<le> length (buffer s)"
    using assms unfolding editor_fits_def editor_ok_def by linarith
  then have "butlast (take (nat (position s)) (buffer s)) = take (nat (position s) - 1) (buffer s)"
    by (rule butlast_take)
  moreover have "nat (position s - 1) = nat (position s) - 1"
    by simp
  ultimately show ?thesis
    using True assms by (simp add: backspace_def editor_fits_def editor_ok_def typed_so_far_def)
next
  case False
  then have "position s = 0"
    using assms by (simp add: editor_fits_def editor_ok_def)
  then have "typed_so_far s = []" "backspace w s = Continue w s"
    by (simp_all add: typed_so_far_def backspace_def)
  then show ?thesis
    using assms by simp
qed

lemma insert_typed:
  assumes "editor_fits s" and "32 \<le> c"
    and "position s + 1 \<ge> bufsize s \<longrightarrow>
           alloc e (bufsize s + LSH_RL_BUFSIZE) \<noteq> None \<and> bufsize s + LSH_RL_BUFSIZE \<le> INT_MAX"
  shows "\<exists>w1 s1. insert_char e w s c = Continue w1 s1 \<and> same_world w w1 \<and> editor_fits s1 \<and>
           bufsize s1 = (if position s + 1 \<ge> bufsize s then bufsize s + LSH_RL_BUFSIZE
                         else bufsize s) \<and>
           position s1 = position s + 1 \<and>
           typed_so_far s1 = typed_so_far s @ [char_of c]"
proof -
  let ?p = "nat (position s)"
  let ?s' = "s\<lparr>buffer := (buffer s)[?p := char_of c], position := position s + 1\<rparr>"
  let ?w' = "emit (Printf ''%c'' [Chr (char_of c)]) w"
  have p: "?p < length (buffer s)" "0 \<le> position s" "position s < int (length (buffer s))"
    "position s + 1 \<le> INT_MAX"
    using assms(1) by (auto simp: editor_fits_def editor_ok_def)
  have ins: "insert_char e w s c = grow e ?w' ?s'"
    using assms(2) p by (simp add: insert_char_def)
  have tk: "take (nat (position s + 1)) ((buffer s)[?p := char_of c]) =
            take ?p (buffer s) @ [char_of c]"
  proof -
    have "nat (position s + 1) = Suc ?p" using p by simp
    then show ?thesis
      using p by (simp add: take_Suc_conv_app_nth)
  qed
  show ?thesis
  proof (cases "position s + 1 \<ge> bufsize s")
    case False
    then have "grow e ?w' ?s' = Continue ?w' ?s'"
      by (simp add: grow_def)
    then show ?thesis
      using False assms(1) tk ins by (simp add: editor_fits_def editor_ok_def typed_so_far_def)
  next
    case True
    with assms(3) obtain g where g: "alloc e (bufsize s + LSH_RL_BUFSIZE) = Some g"
      and small: "bufsize s + LSH_RL_BUFSIZE \<le> INT_MAX"
      by auto
    let ?n = "bufsize s + LSH_RL_BUFSIZE"
    let ?s'' = "?s'\<lparr>bufsize := ?n,
                     buffer := buffer ?s' @ fresh_bytes g (nat ?n - length (buffer ?s'))\<rparr>"
    have "grow e ?w' ?s' = Continue ?w' ?s''"
      using True g small by (simp add: grow_def Let_def)
    moreover have "editor_fits ?s''"
      using assms(1) small by (auto simp: editor_fits_def editor_ok_def LSH_RL_BUFSIZE_def)
    moreover have "typed_so_far ?s'' = typed_so_far s @ [char_of c]"
      using tk p by (simp add: typed_so_far_def)
    ultimately show ?thesis
      using True ins by simp
  qed
qed

lemma key_typed:
  assumes "editor_fits s" and "32 \<le> (of_char k :: int)"
    and "position s + 1 \<ge> bufsize s \<longrightarrow>
           alloc e (bufsize s + LSH_RL_BUFSIZE) \<noteq> None \<and> bufsize s + LSH_RL_BUFSIZE \<le> INT_MAX"
  shows "\<exists>w1 s1. key e w s (of_char k) = Continue w1 s1 \<and> same_world w w1 \<and> editor_fits s1 \<and>
           typed_so_far s1 = apply_key (typed_so_far s) k \<and> position s1 \<le> position s + 1 \<and>
           (k \<noteq> DEL \<longrightarrow> position s1 = position s + 1 \<and>
              bufsize s1 = (if position s + 1 \<ge> bufsize s then bufsize s + LSH_RL_BUFSIZE
                            else bufsize s))"
proof (cases "k = DEL")
  case True
  then have "key e w s (of_char k) = backspace w s"
    by (simp add: key_def DEL_def)
  then show ?thesis
    using backspace_typed [OF assms(1), of w] True by (auto simp: apply_key_def)
next
  case False
  then have "(of_char k :: int) \<noteq> 127"
    by (simp add: of_char_DEL)
  then have "key e w s (of_char k) = insert_char e w s (of_char k)"
    using assms(2) by (simp add: key_def)
  then show ?thesis
    using insert_typed [OF assms(1) assms(2) assms(3), of w] False
    by (auto simp: apply_key_def)
qed

lemma submit_typed:
  assumes "editor_ok s" and "NUL \<notin> set (typed_so_far s)"
  shows "\<exists>w1. submit w s = Returned (typed_so_far s) w1 \<and> tty w1 = orig_termios w \<and>
           orig_termios w1 = orig_termios w \<and>
           shell_history w1 =
             (if position s > 0 then history_add (shell_history w) (typed_so_far s)
              else shell_history w)"
proof -
  let ?p = "nat (position s)"
  have p: "?p < length (buffer s)" "0 \<le> position s" "position s < int (length (buffer s))"
    using assms(1) by (auto simp: editor_ok_def)
  have "(buffer s)[?p := NUL] = take ?p (buffer s) @ NUL # drop (Suc ?p) (buffer s)"
    using p by (simp add: upd_conv_take_nth_drop)
  then have "c_str ((buffer s)[?p := NUL]) = Some (typed_so_far s)"
    using assms(2) by (simp add: c_str_terminated typed_so_far_def)
  then show ?thesis
    using p by (simp add: submit_def Let_def disable_raw_mode_def emit_def)
qed

declare rl_loop.simps [simp del]

lemma rl_loop_key:
  "(of_char k :: int) \<noteq> 27 \<Longrightarrow> key e w s (of_char k) = Continue w1 s1 \<Longrightarrow>
   rl_loop e w s (k # rest) = rl_loop e w1 s1 rest"
  by (simp add: rl_loop.simps)

lemma rl_loop_typed:
  assumes "\<forall>k \<in> set keys. 32 \<le> (of_char k :: int)" and "\<forall>n. alloc e n \<noteq> None"
    and "editor_fits s" and "NUL \<notin> set (typed_so_far s)"
    and "position s + int (length keys) + LSH_RL_BUFSIZE \<le> INT_MAX"
  shows "\<exists>w1 s1. rl_loop e w s (keys @ rest) = rl_loop e w1 s1 rest \<and> same_world w w1 \<and>
           editor_fits s1 \<and> typed_so_far s1 = foldl apply_key (typed_so_far s) keys \<and>
           NUL \<notin> set (typed_so_far s1)"
  using assms
proof (induction keys arbitrary: w s)
  case Nil
  then show ?case
    by (intro exI [of _ w] exI [of _ s]) simp
next
  case (Cons k keys)
  have k: "32 \<le> (of_char k :: int)"
    using Cons.prems(1) by simp
  then have k27: "(of_char k :: int) \<noteq> 27"
    by simp
  have "position s < bufsize s"
    using Cons.prems(3) by (simp add: editor_fits_def editor_ok_def)
  then have room: "position s + 1 \<ge> bufsize s \<longrightarrow>
      alloc e (bufsize s + LSH_RL_BUFSIZE) \<noteq> None \<and> bufsize s + LSH_RL_BUFSIZE \<le> INT_MAX"
    using Cons.prems(2,5) by auto
  obtain w1 s1 where 1: "key e w s (of_char k) = Continue w1 s1" "same_world w w1"
      "editor_fits s1" "typed_so_far s1 = apply_key (typed_so_far s) k"
      "position s1 \<le> position s + 1"
    using key_typed [OF Cons.prems(3) k room, of w] by blast
  have "NUL \<notin> set (apply_key (typed_so_far s) k)"
    using Cons.prems(4) printable_not_NUL [OF k]
    by (auto simp: apply_key_def dest: in_set_butlastD)
  then have nul: "NUL \<notin> set (typed_so_far s1)"
    using 1(4) by simp
  have bound: "position s1 + int (length keys) + LSH_RL_BUFSIZE \<le> INT_MAX"
    using 1(5) Cons.prems(5) by simp
  obtain w2 s2 where 2: "rl_loop e w1 s1 (keys @ rest) = rl_loop e w2 s2 rest"
      "same_world w1 w2" "editor_fits s2"
      "typed_so_far s2 = foldl apply_key (typed_so_far s1) keys"
      "NUL \<notin> set (typed_so_far s2)"
    using Cons.IH [OF _ Cons.prems(2) 1(3) nul bound, of w1] Cons.prems(1) by auto
  have "rl_loop e w s ((k # keys) @ rest) = rl_loop e w2 s2 rest"
    using rl_loop_key [OF k27 1(1)] 2(1) by simp
  moreover have "typed_so_far s2 = foldl apply_key (typed_so_far s) (k # keys)"
    using 1(4) 2(4) by simp
  ultimately show ?case
    using 2(3) 2(5) same_world_trans [OF 1(2) 2(2)] by blast
qed

lemma count_appends: "count (appends ls) = int (min (length ls) 1000)"
  using count_is_length [OF hist_ok_appends, of ls] by (simp add: entries_appends)

lemma appends_nth:
  assumes "length ls \<le> 1000" "i < length ls"
  shows "commands (appends ls) ! i = ls ! i"
proof -
  have "take (nat (count (appends ls))) (commands (appends ls)) = ls"
    using entries_appends [of ls] assms by (simp add: history_entries_def)
  then have "take (length ls) (commands (appends ls)) ! i = ls ! i"
    using assms by (simp add: count_appends)
  then show ?thesis
    using assms by simp
qed

lemma read_line_start:
  "alloc e LSH_RL_BUFSIZE = Some g \<Longrightarrow>
   lsh_read_line e w input =
     rl_loop e (enable_raw_mode w)
       \<lparr>bufsize = LSH_RL_BUFSIZE, position = 0, buffer = fresh_bytes g (nat LSH_RL_BUFSIZE),
        history_pos = count (shell_history w)\<rparr> input"
  by (simp add: lsh_read_line_def)

lemma editor_ok_start:
  "editor_ok \<lparr>bufsize = LSH_RL_BUFSIZE, position = 0, buffer = fresh_bytes g (nat LSH_RL_BUFSIZE),
              history_pos = n\<rparr>"
  by (simp add: editor_ok_def LSH_RL_BUFSIZE_def INT_MAX_def)

lemma editor_fits_start:
  "editor_fits \<lparr>bufsize = LSH_RL_BUFSIZE, position = 0, buffer = fresh_bytes g (nat LSH_RL_BUFSIZE),
                history_pos = n\<rparr>"
  by (simp add: editor_fits_def editor_ok_def LSH_RL_BUFSIZE_def INT_MAX_def)

lemma editor_fits_ok: "editor_fits s \<Longrightarrow> editor_ok s"
  by (simp add: editor_fits_def)

lemma rl_loop_submit:
  "submit w s = Returned line w1 \<Longrightarrow> rl_loop e w s (LF # rest) = Return line w1 rest"
  by (simp add: rl_loop.simps key_def LF_def)

lemma insert_exits:
  assumes "editor_fits s" and "32 \<le> c" and "position s + 1 \<ge> bufsize s"
    and "alloc e (bufsize s + LSH_RL_BUFSIZE) = None"
    and "bufsize s + LSH_RL_BUFSIZE \<le> INT_MAX"
  shows "\<exists>w1. insert_char e w s c = Exited EXIT_FAILURE w1 \<and> same_world w w1"
proof -
  have p: "0 \<le> position s" "position s < int (length (buffer s))" "position s + 1 \<le> INT_MAX"
    using assms(1) by (auto simp: editor_fits_def editor_ok_def)
  show ?thesis
    using assms(2-5) p by (simp add: insert_char_def grow_def Let_def same_world_def emit_def)
qed

lemma insert_overflows:
  assumes "editor_fits s" and "32 \<le> c" and "position s + 1 \<ge> bufsize s"
    and "bufsize s + LSH_RL_BUFSIZE > INT_MAX"
  shows "insert_char e w s c = Fault IntOverflow"
proof -
  have p: "0 \<le> position s" "position s < int (length (buffer s))" "position s + 1 \<le> INT_MAX"
    using assms(1) by (auto simp: editor_fits_def editor_ok_def)
  show ?thesis
    using assms(2-4) p by (simp add: insert_char_def grow_def)
qed

lemma rl_loop_fault:
  "(of_char k :: int) \<noteq> 27 \<Longrightarrow> key e w s (of_char k) = Fault f \<Longrightarrow>
   rl_loop e w s (k # rest) = Undefined f"
  by (simp add: rl_loop.simps)

lemma rl_loop_exit:
  "(of_char k :: int) \<noteq> 27 \<Longrightarrow> key e w s (of_char k) = Exited n w1 \<Longrightarrow>
   rl_loop e w s (k # rest) = Exit n w1"
  by (simp add: rl_loop.simps)

lemma rl_loop_no_growth:
  assumes "\<forall>k \<in> set keys. 32 \<le> (of_char k :: int) \<and> k \<noteq> DEL"
    and "position s + int (length keys) < bufsize s" and "editor_fits s"
  shows "\<exists>w1 s1. rl_loop e w s (keys @ rest) = rl_loop e w1 s1 rest \<and> same_world w w1 \<and>
           editor_fits s1 \<and> position s1 = position s + int (length keys) \<and>
           bufsize s1 = bufsize s"
  using assms
proof (induction keys arbitrary: w s)
  case Nil
  then show ?case
    by (intro exI [of _ w] exI [of _ s]) simp
next
  case (Cons k keys)
  have k: "32 \<le> (of_char k :: int)" "k \<noteq> DEL"
    using Cons.prems(1) by simp_all
  then have k27: "(of_char k :: int) \<noteq> 27"
    by simp
  have room: "\<not> position s + 1 \<ge> bufsize s"
    using Cons.prems(2) by simp
  then have "position s + 1 \<ge> bufsize s \<longrightarrow>
      alloc e (bufsize s + LSH_RL_BUFSIZE) \<noteq> None \<and> bufsize s + LSH_RL_BUFSIZE \<le> INT_MAX"
    by simp
  from key_typed [OF Cons.prems(3) k(1) this, of w]
  obtain w1 s1 where 1: "key e w s (of_char k) = Continue w1 s1" "same_world w w1"
      "editor_fits s1" "position s1 = position s + 1" "bufsize s1 = bufsize s"
    using k(2) room by auto
  have "position s1 + int (length keys) < bufsize s1"
    using 1(4,5) Cons.prems(2) by simp
  from Cons.IH [OF _ this 1(3), of w1] Cons.prems(1)
  obtain w2 s2 where 2: "rl_loop e w1 s1 (keys @ rest) = rl_loop e w2 s2 rest"
      "same_world w1 w2" "editor_fits s2" "position s2 = position s1 + int (length keys)"
      "bufsize s2 = bufsize s1"
    by auto
  have "rl_loop e w s ((k # keys) @ rest) = rl_loop e w2 s2 rest"
    using rl_loop_key [OF k27 1(1)] 2(1) by simp
  moreover have "position s2 = position s + int (length (k # keys))"
    using 1(4) 2(4) by simp
  moreover have "bufsize s2 = bufsize s"
    using 1(5) 2(5) by simp
  ultimately show ?case
    using 2(3) same_world_trans [OF 1(2) 2(2)] by blast
qed

lemma realloc_failure_leaves_raw:
  assumes "alloc e LSH_RL_BUFSIZE = Some g" and "alloc e (2 * LSH_RL_BUFSIZE) = None"
    and "32 \<le> (of_char k :: int)" and "k \<noteq> DEL"
  shows "\<exists>w'. lsh_read_line e w (replicate 1024 k) = Exit EXIT_FAILURE w' \<and>
           tty w' = (tty w)\<lparr>ICANON := False, ECHO := False\<rparr> \<and> orig_termios w' = tty w"
proof -
  let ?w0 = "enable_raw_mode w"
  let ?s0 = "\<lparr>bufsize = LSH_RL_BUFSIZE, position = 0, buffer = fresh_bytes g (nat LSH_RL_BUFSIZE),
              history_pos = count (shell_history w)\<rparr>"
  have ok0: "editor_fits ?s0" by (rule editor_fits_start)
  have "replicate (1023 + 1) k = replicate 1023 k @ replicate 1 k"
    by (rule replicate_add)
  then have split: "replicate 1024 k = replicate 1023 k @ [k]"
    by simp
  have keys: "\<forall>x \<in> set (replicate 1023 k). 32 \<le> (of_char x :: int) \<and> x \<noteq> DEL"
    using assms(3,4) by simp
  have room: "position ?s0 + int (length (replicate 1023 k)) < bufsize ?s0"
    by (simp add: LSH_RL_BUFSIZE_def)
  from rl_loop_no_growth [OF keys room ok0, of e ?w0 "[k]"]
  obtain w1 s1 where 1: "rl_loop e ?w0 ?s0 (replicate 1023 k @ [k]) = rl_loop e w1 s1 [k]"
      "same_world ?w0 w1" "editor_fits s1" "position s1 = 1023" "bufsize s1 = LSH_RL_BUFSIZE"
    by auto
  have full: "position s1 + 1 \<ge> bufsize s1"
    using 1(4,5) by (simp add: LSH_RL_BUFSIZE_def)
  have none: "alloc e (bufsize s1 + LSH_RL_BUFSIZE) = None"
    using assms(2) 1(5) by simp
  have small: "bufsize s1 + LSH_RL_BUFSIZE \<le> INT_MAX"
    using 1(5) by (simp add: LSH_RL_BUFSIZE_def INT_MAX_def)
  from insert_exits [OF 1(3) assms(3) full none small, of w1]
  obtain w2 where 2: "insert_char e w1 s1 (of_char k) = Exited EXIT_FAILURE w2" "same_world w1 w2"
    by auto
  have "(of_char k :: int) \<noteq> 127"
    using assms(4) by (simp add: of_char_DEL)
  then have "key e w1 s1 (of_char k) = Exited EXIT_FAILURE w2"
    using 2(1) assms(3) by (simp add: key_def)
  then have "rl_loop e w1 s1 [k] = Exit EXIT_FAILURE w2"
    using assms(3) by (intro rl_loop_exit) auto
  then have "lsh_read_line e w (replicate 1024 k) = Exit EXIT_FAILURE w2"
    using read_line_start [OF assms(1), of w] 1(1) split by simp
  moreover have "same_world ?w0 w2"
    using 1(2) 2(2) by (rule same_world_trans)
  then have "tty w2 = (tty w)\<lparr>ICANON := False, ECHO := False\<rparr> \<and> orig_termios w2 = tty w"
    by (simp add: same_world_def enable_raw_mode_def Let_def)
  ultimately show ?thesis
    by blast
qed

text \<open>Typing \<open>n\<close> copies of a printable character into a buffer whose size is the
  least multiple of 1024 above the insertion point.\<close>

lemma div_lower: "(1024::int) * (p div 1024) \<le> p" 
  using mult_div_mod_eq [of 1024 p] pos_mod_sign [of 1024 p] by linarith

lemma div_upper: "(p::int) < 1024 * (p div 1024) + 1024"
  using mult_div_mod_eq [of 1024 p] pos_mod_bound [of 1024 p] by linarith

lemma tight_step:
  fixes p b :: int
  assumes "b = 1024 * (p div 1024 + 1)"
  shows "(if p + 1 \<ge> b then b + 1024 else b) = 1024 * ((p + 1) div 1024 + 1)"
proof -
  define a where "a = p div 1024"
  define c where "c = (p + 1) div 1024"
  have pa: "1024 * a \<le> p" "p < 1024 * a + 1024"
    unfolding a_def by (rule div_lower, rule div_upper)
  have pc: "1024 * c \<le> p + 1" "p + 1 < 1024 * c + 1024"
    unfolding c_def by (rule div_lower, rule div_upper)
  have b: "b = 1024 * a + 1024"
    unfolding assms a_def by (simp only: distrib_left mult_1_right)
  have "1024 * a < 1024 * c + 1024"
    using pa pc by linarith
  then have "1024 * a < 1024 * (c + 1)"
    by (simp add: distrib_left)
  then have ac: "a < c + 1"
    by (simp only: mult_less_cancel_left_pos zero_less_numeral)
  have eq: "(if p + 1 \<ge> b then b + 1024 else b) = 1024 * c + 1024"
  proof (cases "p + 1 \<ge> b")
    case True
    then have "1024 * a < 1024 * c"
      using pc b by linarith
    then have "a < c"
      by (simp only: mult_less_cancel_left_pos zero_less_numeral)
    have "1024 * c < 1024 * a + 2048"
      using pa pc by linarith
    then have "1024 * c < 1024 * (a + 2)"
      by (simp add: distrib_left)
    then have "c < a + 2"
      by (simp only: mult_less_cancel_left_pos zero_less_numeral)
    with \<open>a < c\<close> have "c = a + 1" by linarith
    then show ?thesis
      using True b by simp
  next
    case False
    then have "1024 * c < 1024 * a + 1024"
      using pc b by linarith
    then have "1024 * c < 1024 * (a + 1)"
      by (simp add: distrib_left)
    then have "c < a + 1"
      by (simp only: mult_less_cancel_left_pos zero_less_numeral)
    with ac have "c = a" by linarith
    then show ?thesis
      using False b by simp
  qed
  show ?thesis
    unfolding eq c_def by (simp only: distrib_left mult_1_right)
qed

lemma rl_loop_letters:
  assumes "32 \<le> (of_char k :: int)" and "k \<noteq> DEL" and "\<forall>n. alloc e n \<noteq> None"
    and "editor_fits s"
    and "bufsize s = 1024 * (position s div 1024 + 1)"
    and "position s + int n + LSH_RL_BUFSIZE \<le> INT_MAX"
  shows "\<exists>w1 s1. rl_loop e w s (replicate n k @ rest) = rl_loop e w1 s1 rest \<and>
           same_world w w1 \<and> editor_fits s1 \<and> position s1 = position s + int n \<and>
           bufsize s1 = 1024 * (position s1 div 1024 + 1)"
  using assms(4-6)
proof (induction n arbitrary: w s)
  case 0
  then show ?case
    by (intro exI [of _ w] exI [of _ s]) simp
next
  case (Suc n)
  have k27: "(of_char k :: int) \<noteq> 27"
    using assms(1) by simp
  have p: "position s < bufsize s"
    using Suc.prems(1) by (simp add: editor_fits_def editor_ok_def)
  have "bufsize s + LSH_RL_BUFSIZE \<le> INT_MAX" if "position s + 1 \<ge> bufsize s"
    using that p Suc.prems(3) by simp
  then have room: "position s + 1 \<ge> bufsize s \<longrightarrow>
      alloc e (bufsize s + LSH_RL_BUFSIZE) \<noteq> None \<and> bufsize s + LSH_RL_BUFSIZE \<le> INT_MAX"
    using assms(3) by blast
  from key_typed [OF Suc.prems(1) assms(1) room, of w]
  obtain w1 s1 where 1: "key e w s (of_char k) = Continue w1 s1" "same_world w w1"
      "editor_fits s1" "position s1 = position s + 1"
      "bufsize s1 = (if position s + 1 \<ge> bufsize s then bufsize s + LSH_RL_BUFSIZE
                     else bufsize s)"
    using assms(2) by blast
  have "bufsize s1 = (if position s + 1 \<ge> bufsize s then bufsize s + 1024 else bufsize s)"
    using 1(5) by (simp add: LSH_RL_BUFSIZE_def)
  also have "\<dots> = 1024 * ((position s + 1) div 1024 + 1)"
    using Suc.prems(2) by (rule tight_step)
  finally have tight: "bufsize s1 = 1024 * (position s1 div 1024 + 1)"
    using 1(4) by simp
  have bound: "position s1 + int n + LSH_RL_BUFSIZE \<le> INT_MAX"
    using 1(4) Suc.prems(3) by simp
  from Suc.IH [OF 1(3) tight bound, of w1]
  obtain w2 s2 where 2: "rl_loop e w1 s1 (replicate n k @ rest) = rl_loop e w2 s2 rest"
      "same_world w1 w2" "editor_fits s2" "position s2 = position s1 + int n"
      "bufsize s2 = 1024 * (position s2 div 1024 + 1)"
    by blast
  have "rl_loop e w s (replicate (Suc n) k @ rest) = rl_loop e w2 s2 rest"
    using rl_loop_key [OF k27 1(1)] 2(1) by simp
  moreover have "position s2 = position s + int (Suc n)"
    using 1(4) 2(4) by simp
  ultimately show ?case
    using 2(3,5) same_world_trans [OF 1(2) 2(2)] by blast
qed

lemma line_overflows_int:
  assumes "alloc e LSH_RL_BUFSIZE = Some g" and "\<forall>n. alloc e n \<noteq> None"
    and "32 \<le> (of_char k :: int)" and "k \<noteq> DEL"
    and "int n = 2147482623"
  shows "lsh_read_line e w (replicate (Suc n) k @ rest) = Undefined IntOverflow"
proof -
  let ?w0 = "enable_raw_mode w"
  let ?s0 = "\<lparr>bufsize = LSH_RL_BUFSIZE, position = 0, buffer = fresh_bytes g (nat LSH_RL_BUFSIZE),
              history_pos = count (shell_history w)\<rparr>"
  have ok0: "editor_fits ?s0" by (rule editor_fits_start)
  have "replicate (Suc n) k = replicate n k @ [k]"
    by (simp add: replicate_append_same)
  then have split: "replicate (Suc n) k @ rest = replicate n k @ k # rest"
    by simp
  have tight0: "bufsize ?s0 = 1024 * (position ?s0 div 1024 + 1)"
    by (simp add: LSH_RL_BUFSIZE_def)
  have bound0: "position ?s0 + int n + LSH_RL_BUFSIZE \<le> INT_MAX"
    using assms(5) by (simp add: LSH_RL_BUFSIZE_def INT_MAX_def)
  from rl_loop_letters [OF assms(3,4,2) ok0 tight0 bound0, of ?w0 "k # rest"]
  obtain w1 s1 where 1:
      "rl_loop e ?w0 ?s0 (replicate n k @ k # rest) = rl_loop e w1 s1 (k # rest)"
      "editor_fits s1" "position s1 = position ?s0 + int n"
      "bufsize s1 = 1024 * (position s1 div 1024 + 1)"
    by blast
  have pos: "position s1 = 2147482623"
    using 1(3) assms(5) by simp
  have b: "bufsize s1 = 2147482624"
    unfolding 1(4) pos by simp
  have full: "position s1 + 1 \<ge> bufsize s1"
    unfolding pos b by simp
  have big: "bufsize s1 + LSH_RL_BUFSIZE > INT_MAX"
    unfolding b by (simp add: LSH_RL_BUFSIZE_def INT_MAX_def)
  have "(of_char k :: int) \<noteq> 127"
    using assms(4) by (simp add: of_char_DEL)
  then have "key e w1 s1 (of_char k) = insert_char e w1 s1 (of_char k)"
    using assms(3) by (simp add: key_def)
  then have "key e w1 s1 (of_char k) = Fault IntOverflow"
    using insert_overflows [OF 1(2) assms(3) full big, of e w1] by simp
  then have "rl_loop e w1 s1 (k # rest) = Undefined IntOverflow"
    using assms(3) by (intro rl_loop_fault) auto
  then show ?thesis
    using read_line_start [OF assms(1), of w] 1(1) split by simp
qed
subsection \<open>Lemmas on the history cursor\<close>

lemma rl_loop_escape:
  "(of_char k :: int) = 27 \<Longrightarrow> escape w s a b = Continue w1 s1 \<Longrightarrow>
   rl_loop e w s (k # a # b # rest) = rl_loop e w1 s1 rest"
  by (simp add: rl_loop.simps)

lemma recall_cursor:
  assumes "recall fmt w s = Continue w1 s1"
  shows "history_pos s1 = history_pos s \<and> shell_history w1 = shell_history w"
  using assms by (auto simp: recall_def emit_def split: if_splits option.splits)

lemma recall_index:
  "0 \<le> history_pos s \<Longrightarrow> history_pos s < count (shell_history w) \<Longrightarrow>
   recall fmt w s \<noteq> Fault HistoryIndex"
  by (simp add: recall_def split: option.splits)

lemma arrow_up_cursor:
  assumes "cursor_ok w s"
  shows "arrow_up w s \<noteq> Fault HistoryIndex"
    and "arrow_up w s = Continue w1 s1 \<Longrightarrow> cursor_ok w1 s1 \<and> shell_history w1 = shell_history w"
proof -
  show "arrow_up w s \<noteq> Fault HistoryIndex"
    using assms by (simp add: arrow_up_def cursor_ok_def recall_index)
  assume c: "arrow_up w s = Continue w1 s1"
  show "cursor_ok w1 s1 \<and> shell_history w1 = shell_history w"
  proof (cases "history_pos s > 0")
    case True
    with c have "recall (CR # ''> %s'' @ ESC # ''[K'') w (s\<lparr>history_pos := history_pos s - 1\<rparr>) =
                 Continue w1 s1"
      by (simp add: arrow_up_def)
    from recall_cursor [OF this] show ?thesis
      using assms True by (simp add: cursor_ok_def)
  next
    case False
    with c assms show ?thesis by (simp add: arrow_up_def)
  qed
qed

lemma arrow_down_cursor:
  assumes "cursor_ok w s"
  shows "arrow_down w s \<noteq> Fault HistoryIndex"
    and "arrow_down w s = Continue w1 s1 \<Longrightarrow> cursor_ok w1 s1 \<and> shell_history w1 = shell_history w"
proof -
  show "arrow_down w s \<noteq> Fault HistoryIndex"
    using assms by (simp add: arrow_down_def cursor_ok_def recall_index)
  assume c: "arrow_down w s = Continue w1 s1"
  show "cursor_ok w1 s1 \<and> shell_history w1 = shell_history w"
  proof (cases "history_pos s < count (shell_history w) - 1")
    case True
    with c have "recall (CR # ''> %s'' @ ESC # ''[K]'') w (s\<lparr>history_pos := history_pos s + 1\<rparr>) =
                 Continue w1 s1"
      by (simp add: arrow_down_def)
    from recall_cursor [OF this] show ?thesis
      using assms True by (simp add: cursor_ok_def)
  next
    case False
    with c assms show ?thesis by (simp add: arrow_down_def)
  qed
qed

lemma escape_cursor:
  assumes "cursor_ok w s"
  shows "escape w s a b \<noteq> Fault HistoryIndex"
    and "escape w s a b = Continue w1 s1 \<Longrightarrow> cursor_ok w1 s1 \<and> shell_history w1 = shell_history w"
proof -
  have d: "escape w s a b = arrow_up w s \<or> escape w s a b = arrow_down w s \<or>
           escape w s a b = Continue w s"
    by (simp add: escape_def)
  then consider (up) "escape w s a b = arrow_up w s" | (down) "escape w s a b = arrow_down w s"
    | (none) "escape w s a b = Continue w s"
    by blast
  then show "escape w s a b \<noteq> Fault HistoryIndex"
  proof cases
    case up
    then show ?thesis using arrow_up_cursor(1) [OF assms] by simp
  next
    case down
    then show ?thesis using arrow_down_cursor(1) [OF assms] by simp
  next
    case none
    then show ?thesis by simp
  qed
  assume c: "escape w s a b = Continue w1 s1"
  from d consider (up) "escape w s a b = arrow_up w s" | (down) "escape w s a b = arrow_down w s"
    | (none) "escape w s a b = Continue w s"
    by blast
  then show "cursor_ok w1 s1 \<and> shell_history w1 = shell_history w"
  proof cases
    case up
    with c have "arrow_up w s = Continue w1 s1" by simp
    then show ?thesis by (rule arrow_up_cursor(2) [OF assms])
  next
    case down
    with c have "arrow_down w s = Continue w1 s1" by simp
    then show ?thesis by (rule arrow_down_cursor(2) [OF assms])
  next
    case none
    with c have "w1 = w" "s1 = s" by simp_all
    then show ?thesis using assms by simp
  qed
qed

lemma grow_cursor:
  "grow e w s \<noteq> Fault HistoryIndex"
  "grow e w s = Continue w1 s1 \<Longrightarrow> history_pos s1 = history_pos s \<and> w1 = w"
  by (auto simp: grow_def Let_def split: if_splits option.splits)

lemma key_cursor:
  assumes "cursor_ok w s"
  shows "key e w s c \<noteq> Fault HistoryIndex"
    and "key e w s c = Continue w1 s1 \<Longrightarrow> cursor_ok w1 s1 \<and> shell_history w1 = shell_history w"
proof -
  have submit: "submit w s \<noteq> Fault HistoryIndex" "submit w s \<noteq> Continue w1 s1"
    by (auto simp: submit_def Let_def split: option.splits)
  have tab: "tab e w s \<noteq> Fault HistoryIndex"
    "tab e w s = Continue w1 s1 \<Longrightarrow> history_pos s1 = history_pos s \<and> shell_history w1 = shell_history w"
    by (auto simp: tab_def Let_def emit_def dest: completions_fault
          split: option.splits prod.splits list.splits sum.splits)
  have bs: "backspace w s \<noteq> Fault HistoryIndex"
    "backspace w s = Continue w1 s1 \<Longrightarrow> history_pos s1 = history_pos s \<and> shell_history w1 = shell_history w"
    by (auto simp: backspace_def emit_def split: if_splits)
  have ins: "insert_char e w s c \<noteq> Fault HistoryIndex"
    "insert_char e w s c = Continue w1 s1 \<Longrightarrow> history_pos s1 = history_pos s \<and> shell_history w1 = shell_history w"
    using grow_cursor [of e w s] grow_cursor [of e "emit (Printf ''%c'' [Chr (char_of c)]) w"
      "s\<lparr>buffer := (buffer s)[nat (position s) := char_of c], position := position s + 1\<rparr>"]
    by (auto simp: insert_char_def emit_def split: if_splits)
  show "key e w s c \<noteq> Fault HistoryIndex"
    using submit tab bs ins by (simp add: key_def)
  assume "key e w s c = Continue w1 s1"
  then show "cursor_ok w1 s1 \<and> shell_history w1 = shell_history w"
    using submit tab bs ins assms by (auto simp: key_def cursor_ok_def split: if_splits)
qed

lemma rl_loop_cursor:
  "cursor_ok w s \<Longrightarrow> rl_loop e w s input \<noteq> Undefined HistoryIndex"
proof (induction e w s input rule: rl_loop.induct)
  case (1 e w s)
  then show ?case by (simp add: rl_loop.simps)
next
  case (2 e w s ch cs)
  show ?case
  proof (cases "(of_char ch :: int) = 27")
    case True
    show ?thesis
    proof (cases cs)
      case Nil
      with True show ?thesis by (simp add: rl_loop.simps)
    next
      case (Cons a cs')
      show ?thesis
      proof (cases cs')
        case Nil
        with True Cons show ?thesis by (simp add: rl_loop.simps)
      next
        case (Cons b rest)
        note cs = \<open>cs = a # cs'\<close> \<open>cs' = b # rest\<close>
        show ?thesis
        proof (cases "escape w s a b")
          case (Continue w1 s1)
          then have "cursor_ok w1 s1"
            using escape_cursor(2) [OF "2.prems"] by blast
          then have "rl_loop e w1 s1 rest \<noteq> Undefined HistoryIndex"
            using "2.IH"(1) [OF True cs Continue] by simp
          then show ?thesis
            using True cs Continue by (simp add: rl_loop.simps)
        next
          case (Fault f)
          then have "f \<noteq> HistoryIndex"
            using escape_cursor(1) [OF "2.prems", of a b] by auto
          then show ?thesis
            using True cs Fault by (simp add: rl_loop.simps)
        qed (use True cs in \<open>simp_all add: rl_loop.simps\<close>)
      qed
    qed
  next
    case False
    show ?thesis
    proof (cases "key e w s (of_char ch)")
      case (Continue w1 s1)
      then have "cursor_ok w1 s1"
        using key_cursor(2) [OF "2.prems"] by blast
      then have "rl_loop e w1 s1 cs \<noteq> Undefined HistoryIndex"
        using "2.IH"(2) [OF False Continue] by simp
      then show ?thesis
        using False Continue by (simp add: rl_loop.simps)
    next
      case (Fault f)
      then have "f \<noteq> HistoryIndex"
        using key_cursor(1) [OF "2.prems", of e "of_char ch"] by auto
      then show ?thesis
        using False Fault by (simp add: rl_loop.simps)
    qed (use False in \<open>simp_all add: rl_loop.simps\<close>)
  qed
qed

subsection \<open>Lemmas on the builtins and the dispatcher\<close>

declare find_builtin.simps [simp del]

lemma distinct_builtin_str: "distinct builtin_str"
  by (simp add: builtin_str_def)

lemma length_builtin_func: "length builtin_func = lsh_num_builtins"
  by (simp add: builtin_func_def lsh_num_builtins_def builtin_str_def)

lemma find_builtin_hit:
  "i < lsh_num_builtins \<Longrightarrow> j \<le> i \<Longrightarrow> args ! 0 = builtin_str ! i \<Longrightarrow>
   find_builtin j os hist args = (builtin_func ! i) os hist args"
proof (induction "i - j" arbitrary: j)
  case 0
  then have "j = i" by simp
  with 0 show ?case
    by (subst find_builtin.simps) simp
next
  case (Suc d)
  then have lt: "j < i" "j < lsh_num_builtins" by simp_all
  have "builtin_str ! j \<noteq> builtin_str ! i"
    using lt Suc.prems(1) distinct_builtin_str
    by (simp add: nth_eq_iff_index_eq lsh_num_builtins_def)
  then have "find_builtin j os hist args = find_builtin (j + 1) os hist args"
    using lt Suc.prems(3) by (subst find_builtin.simps) simp
  also have "\<dots> = (builtin_func ! i) os hist args"
    using Suc.hyps(2) lt Suc.prems by (intro Suc.hyps(1)) simp_all
  finally show ?case .
qed

lemma find_builtin_miss:
  "args ! 0 \<notin> set builtin_str \<Longrightarrow> find_builtin j os hist args = lsh_launch os args"
proof (induction "lsh_num_builtins - j" arbitrary: j)
  case 0
  then show ?case
    by (subst find_builtin.simps) simp
next
  case (Suc d)
  then have lt: "j < lsh_num_builtins" by simp
  then have "builtin_str ! j \<in> set builtin_str"
    by (simp add: lsh_num_builtins_def)
  then have "args ! 0 \<noteq> builtin_str ! j"
    using Suc.prems by auto
  then have "find_builtin j os hist args = find_builtin (j + 1) os hist args"
    using lt by (subst find_builtin.simps) simp
  also have "\<dots> = lsh_launch os args"
    using Suc.hyps(2) Suc.prems by (intro Suc.hyps(1)) simp_all
  finally show ?case .
qed

lemma builtin_returns:
  "fst (lsh_cd os hist args) = Returns 1"
  "fst (lsh_help os hist args) = Returns 1"
  "fst (lsh_exit os hist args) = Returns 0"
  "fst (lsh_ls os hist args) = Returns 1"
  "fst (lsh_pwd os hist args) = Returns 1"
  "fst (lsh_clear os hist args) = Returns 1"
  "fst (lsh_history os hist args) = Returns 1"
  "fst (lsh_cat os hist args) = Returns 1"
  "fst (lsh_grep os hist args) = Returns 1"
  "fst (lsh_touch os hist args) = Returns 1"
  "fst (lsh_echo os hist args) = Returns 1"
  "fst (lsh_rm os hist args) = Returns 1"
  by (simp_all add: lsh_cd_def lsh_help_def lsh_exit_def lsh_ls_def lsh_pwd_def lsh_clear_def
        lsh_history_def lsh_cat_def lsh_grep_def lsh_touch_def lsh_echo_def lsh_rm_def Let_def
        split: option.splits)

lemma builtin_table_returns:
  "map (\<lambda>f. fst (f os hist args)) builtin_func =
   map (\<lambda>b. Returns (if b = ''exit'' then 0 else 1)) builtin_str"
  by (simp add: builtin_func_def builtin_str_def builtin_returns)

lemma wait_child_status: "fst (wait_child sts) = Blocked \<or> fst (wait_child sts) = Returns 1"
  by (induction sts) (auto split: prod.splits)

lemma wait_child_returns:
  "list_ex (\<lambda>st. st \<noteq> WStopped) sts \<Longrightarrow> fst (wait_child sts) = Returns 1"
proof (induction sts)
  case Nil
  then show ?case by simp
next
  case (Cons st sts)
  then show ?case
    by (cases st) (auto split: prod.splits)
qed

lemma launch_not_stop: "fst (lsh_launch os args) \<noteq> Returns 0"
  using wait_child_status [of "waitpid os"]
  by (auto simp: lsh_launch_def EXIT_FAILURE_def split: prod.splits)

lemma launch_returns:
  assumes "fork os < 0 \<or> (0 < fork os \<and> list_ex (\<lambda>st. st \<noteq> WStopped) (waitpid os))"
  shows "fst (lsh_launch os args) = Returns 1"
  using assms wait_child_returns [of "waitpid os"]
  by (auto simp: lsh_launch_def split: prod.splits)

lemma execute_builtin:
  assumes "i < lsh_num_builtins"
  shows "lsh_execute os hist (builtin_str ! i # rest) =
         (builtin_func ! i) os hist (builtin_str ! i # rest)"
  using find_builtin_hit [OF assms, of 0 "builtin_str ! i # rest" os hist]
  by (simp add: lsh_execute_def arg_def)

lemma execute_external:
  assumes "a \<notin> set builtin_str"
  shows "lsh_execute os hist (a # rest) = lsh_launch os (a # rest)"
  using find_builtin_miss [of "a # rest" 0 os hist] assms
  by (simp add: lsh_execute_def arg_def)

lemma execute_stop_iff:
  "fst (lsh_execute os hist args) = Returns 0 \<longleftrightarrow> args \<noteq> [] \<and> hd args = ''exit''"
proof (cases args)
  case Nil
  then show ?thesis by (simp add: lsh_execute_def arg_def)
next
  case (Cons a rest)
  show ?thesis
  proof (cases "a \<in> set builtin_str")
    case False
    then have "a \<noteq> ''exit''" by (auto simp: builtin_str_def)
    then show ?thesis
      using execute_external [OF False, of os hist rest] launch_not_stop [of os "a # rest"] Cons
      by simp
  next
    case True
    then obtain i where i: "i < length builtin_str" "builtin_str ! i = a"
      by (auto simp: in_set_conv_nth)
    then have il: "i < lsh_num_builtins" by (simp add: lsh_num_builtins_def)
    have "fst ((builtin_func ! i) os hist args) =
          map (\<lambda>f. fst (f os hist args)) builtin_func ! i"
      using il by (simp add: length_builtin_func)
    also have "\<dots> = Returns (if a = ''exit'' then 0 else 1)"
      using i by (simp add: builtin_table_returns)
    finally show ?thesis
      using execute_builtin [OF il, of os hist rest] i Cons by simp
  qed
qed

subsection \<open>Lemmas on the terminal mode\<close>

text \<open>Whenever \<open>lsh_read_line\<close> returns, the terminal has the attributes it had at
  the call.\<close>

lemma recall_orig:
  "recall fmt w s = Continue w1 s1 \<Longrightarrow> orig_termios w1 = orig_termios w"
  by (auto simp: recall_def emit_def split: if_splits option.splits)

lemma recall_not_returned: "recall fmt w s \<noteq> Returned line w1"
  by (auto simp: recall_def split: if_splits option.splits)

lemma escape_orig:
  "escape w s a b = Continue w1 s1 \<Longrightarrow> orig_termios w1 = orig_termios w"
  "escape w s a b \<noteq> Returned line w1"
proof -
  have d: "escape w s a b = Continue w s \<or>
           (\<exists>fmt s'. escape w s a b = recall fmt w s')"
    by (auto simp: escape_def arrow_up_def arrow_down_def)
  show "escape w s a b \<noteq> Returned line w1"
    using d recall_not_returned by auto
  assume "escape w s a b = Continue w1 s1"
  with d show "orig_termios w1 = orig_termios w"
    by (metis recall_orig step.inject(1))
qed

lemma key_orig:
  "key e w s c = Continue w1 s1 \<Longrightarrow> orig_termios w1 = orig_termios w"
  "key e w s c = Returned line w1 \<Longrightarrow> tty w1 = orig_termios w"
proof -
  have submit: "submit w s \<noteq> Continue w1 s1"
    "submit w s = Returned line w1 \<Longrightarrow> tty w1 = orig_termios w"
    by (auto simp: submit_def Let_def disable_raw_mode_def emit_def split: option.splits if_splits)
  have tab: "tab e w s \<noteq> Returned line w1"
    "tab e w s = Continue w1 s1 \<Longrightarrow> orig_termios w1 = orig_termios w"
    by (auto simp: tab_def Let_def emit_def
          split: option.splits prod.splits list.splits sum.splits)
  have bs: "backspace w s \<noteq> Returned line w1"
    "backspace w s = Continue w1 s1 \<Longrightarrow> orig_termios w1 = orig_termios w"
    by (auto simp: backspace_def emit_def split: if_splits)
  have grow: "grow e w' s' \<noteq> Returned line w1" for w' s'
    by (auto simp: grow_def Let_def split: if_splits option.splits)
  have ins: "insert_char e w s c \<noteq> Returned line w1"
    "insert_char e w s c = Continue w1 s1 \<Longrightarrow> orig_termios w1 = orig_termios w"
    using grow
    by (auto simp: insert_char_def emit_def split: if_splits dest!: grow_cursor(2))
  show "key e w s c = Continue w1 s1 \<Longrightarrow> orig_termios w1 = orig_termios w"
    using submit tab bs ins by (auto simp: key_def split: if_splits)
  show "key e w s c = Returned line w1 \<Longrightarrow> tty w1 = orig_termios w"
    using submit tab bs ins by (auto simp: key_def split: if_splits)
qed

lemma rl_loop_restores:
  "rl_loop e w s input = Return line w' rest \<Longrightarrow> tty w' = orig_termios w"
proof (induction e w s input rule: rl_loop.induct)
  case (1 e w s)
  then show ?case by (simp add: rl_loop.simps)
next
  case (2 e w s ch cs)
  show ?case
  proof (cases "(of_char ch :: int) = 27")
    case True
    show ?thesis
    proof (cases cs)
      case Nil
      with True "2.prems" show ?thesis by (simp add: rl_loop.simps)
    next
      case (Cons a cs')
      show ?thesis
      proof (cases cs')
        case Nil
        with True Cons "2.prems" show ?thesis by (simp add: rl_loop.simps)
      next
        case (Cons b rest')
        note cs = \<open>cs = a # cs'\<close> \<open>cs' = b # rest'\<close>
        show ?thesis
        proof (cases "escape w s a b")
          case (Continue w1 s1)
          then have "rl_loop e w1 s1 rest' = Return line w' rest"
            using True cs "2.prems" by (simp add: rl_loop.simps)
          then have "tty w' = orig_termios w1"
            by (rule "2.IH"(1) [OF True cs Continue])
          then show ?thesis
            using escape_orig(1) [OF Continue] by simp
        next
          case (Returned l w1)
          then show ?thesis using escape_orig(2) [of w s a b l w1] by simp
        qed (use True cs "2.prems" in \<open>simp_all add: rl_loop.simps\<close>)
      qed
    qed
  next
    case False
    show ?thesis
    proof (cases "key e w s (of_char ch)")
      case (Continue w1 s1)
      then have "rl_loop e w1 s1 cs = Return line w' rest"
        using False "2.prems" by (simp add: rl_loop.simps)
      then have "tty w' = orig_termios w1"
        by (rule "2.IH"(2) [OF False Continue])
      then show ?thesis
        using key_orig(1) [OF Continue] by simp
    next
      case (Returned l w1)
      then have "w' = w1"
        using False "2.prems" by (simp add: rl_loop.simps)
      then show ?thesis
        using key_orig(2) [OF Returned] by simp
    qed (use False "2.prems" in \<open>simp_all add: rl_loop.simps\<close>)
  qed
qed

lemma return_restores_terminal:
  assumes "lsh_read_line e w input = Return line w' rest"
  shows "tty w' = tty w"
proof (cases "alloc e LSH_RL_BUFSIZE")
  case None
  with assms show ?thesis by (simp add: lsh_read_line_def)
next
  case (Some g)
  with assms have "tty w' = orig_termios (enable_raw_mode w)"
    by (auto simp: read_line_start [OF Some] dest: rl_loop_restores)
  then show ?thesis
    by (simp add: enable_raw_mode_def Let_def)
qed

section \<open>Claims\<close>

text \<open>
  C1 (history bounding). For every sequence of lines appended to the store that
  \<open>history_init\<close> creates (non-empty or not), the count never exceeds the capacity,
  which is 1000; the store holds the last 1000 appended lines in their order (all of
  them when there are at most 1000); and an append to a store that already took 1000
  or more lines drops exactly the entry at index 0, keeps the others in order and
  puts the new line last.
\<close>

theorem history_bounded:
  "count (appends ls) \<le> capacity (appends ls) \<and>
   capacity (appends ls) = 1000 \<and>
   count (appends ls) = int (min (length ls) 1000) \<and>
   history_entries (appends ls) = drop (length ls - 1000) ls \<and>
   (1000 \<le> length ls \<longrightarrow>
      history_entries (history_add (appends ls) l) = tl (history_entries (appends ls)) @ [l] \<and>
      count (history_add (appends ls) l) = 1000)"
proof -
  have ok: "hist_ok (appends ls)" by (rule hist_ok_appends)
  have cnt: "count (appends ls) = int (min (length ls) 1000)"
    using count_is_length [OF ok] by (simp add: entries_appends)
  have "history_entries (history_add (appends ls) l) = tl (history_entries (appends ls)) @ [l]"
    and "count (history_add (appends ls) l) = 1000" if "1000 \<le> length ls"
  proof -
    have full: "count (appends ls) = capacity (appends ls)"
      using that cnt by (simp add: capacity_appends)
    show "history_entries (history_add (appends ls) l) = tl (history_entries (appends ls)) @ [l]"
      by (rule history_add_full [OF ok full])
    show "count (history_add (appends ls) l) = 1000"
      using full by (simp add: count_history_add [OF ok] capacity_appends)
  qed
  then show ?thesis
    using cnt by (simp add: entries_appends capacity_appends)
qed

theorem history_bounded_witness:
  "1000 \<le> length (replicate 1000 ''ls'') \<and>
   history_entries (history_add (appends (replicate 1000 ''ls'')) ''pwd'') =
     tl (history_entries (appends (replicate 1000 ''ls''))) @ [''pwd''] \<and>
   history_entries (appends (replicate 1000 ''ls'')) = replicate 1000 ''ls''"
  using history_bounded [of "replicate 1000 ''ls''" "''pwd''"] by simp

text \<open>
  C2 (the down arrow at the newest entry clears the line) does not hold of the code.
  The branch that clears the buffer (lines 121-126, commented "Clear line if at newest
  command") is guarded by the condition of the branch before it, so it is never
  taken: the down arrow either recalls the next entry or does nothing. With the
  history \<open>ls\<close>, \<open>pwd\<close> and the keys up, up, down, down, the line that the line feed
  then submits is \<open>pwd\<close>, not the empty line.
\<close>

theorem down_at_newest_keeps_line:
  "arrow_down w s =
     (if history_pos s < count (shell_history w) - 1
      then recall (CR # ''> %s'' @ ESC # ''[K]'') w (s\<lparr>history_pos := history_pos s + 1\<rparr>)
      else Continue w s) \<and>
   (\<exists>w'. lsh_read_line generous (session [''ls'', ''pwd''])
      [ESC, CHR ''['', CHR ''A'', ESC, CHR ''['', CHR ''A'',
       ESC, CHR ''['', CHR ''B'', ESC, CHR ''['', CHR ''B'', LF] = Return ''pwd'' w' [])"
proof
  show "arrow_down w s =
     (if history_pos s < count (shell_history w) - 1
      then recall (CR # ''> %s'' @ ESC # ''[K]'') w (s\<lparr>history_pos := history_pos s + 1\<rparr>)
      else Continue w s)"
    by (simp add: arrow_down_def)
  show "\<exists>w'. lsh_read_line generous (session [''ls'', ''pwd''])
      [ESC, CHR ''['', CHR ''A'', ESC, CHR ''['', CHR ''A'',
       ESC, CHR ''['', CHR ''B'', ESC, CHR ''['', CHR ''B'', LF] = Return ''pwd'' w' []"
    by (simp add: lsh_read_line_def generous_def session_def rl_loop.simps escape_def
        arrow_up_def arrow_down_def recall_def strcpy_def c_str_def key_def submit_def emit_def
        enable_raw_mode_def disable_raw_mode_def Let_def count_appends appends_nth
        ESC_def LF_def NUL_def CR_def LSH_RL_BUFSIZE_def)
qed

text \<open>
  C3 (the terminal mode is restored on every exit path) does not hold of the code.
  When the buffer is full and \<open>realloc\<close> fails, \<open>lsh_read_line\<close> calls
  \<open>exit(EXIT_FAILURE)\<close> (lines 172-175) without calling \<open>disable_raw_mode\<close>, which
  the returning path does call (line 135, lemma \<open>return_restores_terminal\<close>); the
  program registers no exit handler.
  Evaluated here: the terminal is in cooked mode, 1024 letters are typed, the buffer
  cannot be enlarged; the process exits with \<open>ICANON\<close> and \<open>ECHO\<close> still off.
\<close>

theorem raw_mode_left_on_exit:
  "\<exists>w'. lsh_read_line starved (session []) (replicate 1024 (CHR ''a'')) = Exit EXIT_FAILURE w' \<and>
        tty (session []) = \<lparr>ICANON = True, ECHO = True\<rparr> \<and>
        tty w' = \<lparr>ICANON = False, ECHO = False\<rparr>"
proof -
  have 1: "alloc starved LSH_RL_BUFSIZE = Some (\<lambda>i. CHR ''?'')"
    by (simp add: starved_def)
  have 2: "alloc starved (2 * LSH_RL_BUFSIZE) = None"
    by (simp add: starved_def LSH_RL_BUFSIZE_def)
  have 3: "32 \<le> (of_char (CHR ''a'') :: int)" "CHR ''a'' \<noteq> DEL"
    by (simp_all add: DEL_def)
  from realloc_failure_leaves_raw [OF 1 2 3, of "session []"]
  show ?thesis
    by (auto simp: session_def cooked_def)
qed

text \<open>
  C4 (appending the empty line is a no-op), as amended. The test for the empty line
  is in \<open>lsh_read_line\<close>, not in \<open>history_add\<close>: when the line feed arrives,
  \<open>history_add\<close> is called only if \<open>position > 0\<close>. So submitting an empty line
  returns the empty string and leaves the history as it was, and in general the line
  submitted is appended exactly when the insertion point is not 0. \<open>history_add\<close>
  itself stores the empty string like any other string: below capacity it becomes a
  new last entry.
\<close>

theorem empty_line_not_recorded:
  assumes "alloc e LSH_RL_BUFSIZE \<noteq> None"
  shows "(\<exists>w'. lsh_read_line e w (LF # rest) = Return [] w' rest \<and>
               shell_history w' = shell_history w) \<and>
         (\<forall>s. editor_ok s \<and> NUL \<notin> set (typed_so_far s) \<longrightarrow>
            (\<exists>w'. submit w s = Returned (typed_so_far s) w' \<and>
               shell_history w' =
                 (if position s > 0 then history_add (shell_history w) (typed_so_far s)
                  else shell_history w))) \<and>
         (\<forall>h. hist_ok h \<and> count h < capacity h \<longrightarrow>
            history_entries (history_add h []) = history_entries h @ [[]])"
proof (intro conjI allI impI)
  obtain g where g: "alloc e LSH_RL_BUFSIZE = Some g"
    using assms by auto
  let ?w0 = "enable_raw_mode w"
  let ?s0 = "\<lparr>bufsize = LSH_RL_BUFSIZE, position = 0, buffer = fresh_bytes g (nat LSH_RL_BUFSIZE),
              history_pos = count (shell_history w)\<rparr>"
  have ok0: "editor_ok ?s0" by (rule editor_ok_start)
  have t0: "typed_so_far ?s0 = []" by (simp add: typed_so_far_def)
  then have "NUL \<notin> set (typed_so_far ?s0)" by simp
  from submit_typed [OF ok0 this, of ?w0]
  obtain w1 where 1: "submit ?w0 ?s0 = Returned [] w1" "shell_history w1 = shell_history ?w0"
    using t0 by auto
  have "lsh_read_line e w (LF # rest) = Return [] w1 rest"
    using read_line_start [OF g] rl_loop_submit [OF 1(1)] by simp
  moreover have "shell_history w1 = shell_history w"
    using 1(2) by (simp add: enable_raw_mode_def Let_def)
  ultimately show "\<exists>w'. lsh_read_line e w (LF # rest) = Return [] w' rest \<and>
               shell_history w' = shell_history w"
    by blast
next
  fix s :: editor
  assume "editor_ok s \<and> NUL \<notin> set (typed_so_far s)"
  then show "\<exists>w'. submit w s = Returned (typed_so_far s) w' \<and>
               shell_history w' =
                 (if position s > 0 then history_add (shell_history w) (typed_so_far s)
                  else shell_history w)"
    using submit_typed [of s w] by blast
next
  fix h :: History
  assume "hist_ok h \<and> count h < capacity h"
  then show "history_entries (history_add h []) = history_entries h @ [[]]"
    by (simp add: history_add_below)
qed

theorem empty_line_not_recorded_witness:
  "alloc generous LSH_RL_BUFSIZE \<noteq> None \<and>
   (\<exists>w'. lsh_read_line generous (session [''ls'']) [LF] = Return [] w' [] \<and>
         shell_history w' = shell_history (session [''ls''])) \<and>
   hist_ok history_init \<and> count history_init < capacity history_init \<and>
   history_entries (history_add history_init []) = history_entries history_init @ [[]]"
proof -
  have a: "alloc generous LSH_RL_BUFSIZE \<noteq> None"
    by (simp add: generous_def)
  have c: "count history_init < capacity history_init"
    by (simp add: history_init_def HISTORY_MAX_def)
  show ?thesis
    using empty_line_not_recorded [OF a, of "session [''ls'']" "[]"] a c hist_ok_init
    by blast
qed

text \<open>
  The claim as the specification states it fails: \<open>history_add\<close> with the empty string
  on the empty store leaves one entry.
\<close>

theorem history_add_empty_counterexample:
  "count (history_add history_init []) = 1 \<and> count history_init = 0 \<and>
   history_entries (history_add history_init []) = [[]] \<and>
   history_entries history_init = [] \<and>
   history_entries (history_add history_init []) \<noteq> history_entries history_init"
proof -
  have c: "count history_init < capacity history_init"
    by (simp add: history_init_def HISTORY_MAX_def)
  have "history_entries (history_add history_init []) = [[]]"
    using history_add_below [OF hist_ok_init c, of "[]"] by (simp add: history_entries_init)
  moreover have "count (history_add history_init []) = 1" "count history_init = 0"
    using c by (simp_all add: count_history_add [OF hist_ok_init]) (simp_all add: history_init_def)
  ultimately show ?thesis
    by (simp add: history_entries_init)
qed

text \<open>
  C5 (completion prefix property), as amended. Let \<open>p\<close> be a partial string (a C
  string, so without NUL) that fewer than 64 of the builtin names and directory
  entries start with. Then \<open>get_completions\<close> returns the builtin names that start with
  \<open>p\<close>, in table order, followed by the directory entries that start with \<open>p\<close>, in
  enumeration order: every candidate starts with \<open>p\<close>, every builtin name and every
  directory entry that starts with \<open>p\<close> is a candidate, and a name occurs among the
  candidates as often as it occurs in the table and in the directory listing together
  (the two sources are not deduplicated). So no candidate occurs twice when the
  directory lists no name twice and none that is a builtin name. The empty partial
  matches every name.
\<close>

theorem completions_prefix:
  assumes "NUL \<notin> set p"
    and "length (filter (prefix p) builtin_str) + length (filter (prefix p) dir) < 64"
  shows "fst (get_completions p dir) =
           Inr (filter (prefix p) builtin_str @ filter (prefix p) dir) \<and>
         (\<forall>c \<in> set (filter (prefix p) builtin_str @ filter (prefix p) dir). prefix p c) \<and>
         (\<forall>x \<in> set builtin_str \<union> set dir. prefix p x \<longrightarrow>
            x \<in> set (filter (prefix p) builtin_str @ filter (prefix p) dir)) \<and>
         (\<forall>x. prefix p x \<longrightarrow>
            count_list (filter (prefix p) builtin_str @ filter (prefix p) dir) x =
              count_list builtin_str x + count_list dir x) \<and>
         (distinct dir \<and> set dir \<inter> set builtin_str = {} \<longrightarrow>
            distinct (filter (prefix p) builtin_str @ filter (prefix p) dir))"
proof -
  define B where "B = filter (prefix p) builtin_str"
  define D where "D = filter (prefix p) dir"
  have m: "(\<lambda>e. strncmp p e (length p) = 0) = prefix p"
    using assms(1) by (simp add: strncmp_prefix fun_eq_iff)
  have 0: "fst (get_completions p dir) = Inr (B @ D)"
    using assms(2) unfolding B_def D_def by (simp only: completions_eq m if_True)
  have 1: "\<forall>c \<in> set (B @ D). prefix p c"
    by (auto simp: B_def D_def)
  have 2: "\<forall>x \<in> set builtin_str \<union> set dir. prefix p x \<longrightarrow> x \<in> set (B @ D)"
    by (auto simp: B_def D_def)
  have 3: "\<forall>x. prefix p x \<longrightarrow> count_list (B @ D) x = count_list builtin_str x + count_list dir x"
    by (simp add: B_def D_def count_list_filter)
  have 4: "distinct dir \<and> set dir \<inter> set builtin_str = {} \<longrightarrow> distinct (B @ D)"
  proof
    assume a: "distinct dir \<and> set dir \<inter> set builtin_str = {}"
    have "distinct builtin_str"
      by (simp add: builtin_str_def)
    with a show "distinct (B @ D)"
      unfolding B_def D_def by auto
  qed
  from 0 1 2 3 4 show ?thesis
    unfolding B_def D_def by blast
qed

theorem completions_prefix_witness:
  "NUL \<notin> set ''n'' \<and>
   length (filter (prefix ''n'') builtin_str) +
     length (filter (prefix ''n'') [''notes.txt'', ''numbers.csv'']) < 64 \<and>
   fst (get_completions ''n'' [''notes.txt'', ''numbers.csv'']) =
     Inr [''notes.txt'', ''numbers.csv''] \<and>
   prefix ''n'' ''notes.txt'' \<and> prefix ''n'' ''numbers.csv'' \<and>
   distinct [''notes.txt'', ''numbers.csv''] \<and>
   set [''notes.txt'', ''numbers.csv''] \<inter> set builtin_str = {}"
proof -
  have 1: "NUL \<notin> set ''n''"
    by (simp add: NUL_def)
  have 2: "length (filter (prefix ''n'') builtin_str) +
     length (filter (prefix ''n'') [''notes.txt'', ''numbers.csv'']) < 64"
    by (simp add: builtin_str_def)
  have 3: "filter (prefix ''n'') builtin_str @ filter (prefix ''n'') [''notes.txt'', ''numbers.csv'']
           = [''notes.txt'', ''numbers.csv'']"
    by (simp add: builtin_str_def)
  have 4: "set [''notes.txt'', ''numbers.csv''] \<inter> set builtin_str = {}"
    by (simp add: builtin_str_def)
  show ?thesis
    using completions_prefix [OF 1 2] 1 2 4 unfolding 3 by simp
qed

text \<open>
  The claim as the specification states it fails: in a directory that holds a file
  named \<open>ls\<close>, the partial \<open>l\<close> is completed to \<open>ls\<close> twice, once from the builtin table
  and once from the directory, not exactly once.
\<close>

theorem completions_prefix_counterexample:
  "''ls'' \<in> set builtin_str \<and> prefix ''l'' ''ls'' \<and>
   fst (get_completions ''l'' [''ls'']) = Inr [''ls'', ''ls''] \<and>
   count_list [''ls'', ''ls''] ''ls'' = 2"
  by (simp add: completions_eq builtin_str_def)

text \<open>
  C6 (history persistence round trip) does not hold of the code. \<open>lsh_read_line\<close>
  accepts a line of any length by growing its buffer, \<open>history_add\<close> stores it and
  \<open>history_save\<close> writes it in full, but \<open>history_load\<close> reads the file through a
  buffer of 1024 bytes (lines 554-557): a line of 1023 bytes or more is cut into
  several entries. Evaluated here: a store whose only entry is 1023 letters is saved
  and loaded into a new store; the letters come back followed by an empty entry (the
  line feed, which did not fit, is read as a line of its own).
\<close>

theorem long_entry_split_on_load:
  "history_entries (history_load history_init
      (fst (history_save True (appends [replicate 1023 (CHR ''a'')]) None))) =
     [replicate 1023 (CHR ''a''), []] \<and>
   history_entries (appends [replicate 1023 (CHR ''a'')]) = [replicate 1023 (CHR ''a'')] \<and>
   history_entries (history_load history_init
      (fst (history_save True (appends [replicate 1023 (CHR ''a'')]) None))) \<noteq>
     history_entries (appends [replicate 1023 (CHR ''a'')])"
proof -
  have e: "history_entries (appends [replicate 1023 (CHR ''a'')]) = [replicate 1023 (CHR ''a'')]"
    by (simp add: entries_appends)
  have c: "chomp (replicate 1023 (CHR ''a'')) = replicate 1023 (CHR ''a'')"
    unfolding chomp_def by (rule takeWhile_eq_all_conv [THEN iffD2]) (simp add: LF_def NUL_def)
  have "history_load history_init (Some (replicate 1023 (CHR ''a'') @ [LF])) =
        appends [replicate 1023 (CHR ''a''), []]"
    using fgets_all_long [of "CHR ''a''"]
    by (simp add: history_load_def c appends_def LF_def) (simp add: chomp_def LF_def [symmetric])
  then have "history_entries (history_load history_init
      (fst (history_save True (appends [replicate 1023 (CHR ''a'')]) None))) =
     [replicate 1023 (CHR ''a''), []]"
    using e by (simp add: history_save_def entries_appends)
  then show ?thesis
    using e by simp
qed

text \<open>
  C7 (growth of the edit buffer and fidelity of its content), as amended. Let the keys
  fed to \<open>lsh_read_line\<close> be bytes from 32 on (printable characters, and 127 for
  backspace), fewer than \<open>2^31 - 1024\<close> of them, so that \<open>bufsize\<close> stays a value of
  \<open>int\<close>, followed by a line feed, and let every allocation succeed. Then the function
  returns, the line it returns is the result of applying the inserts and backspaces
  in order, the input after the line feed is left unread and the terminal has the
  attributes it had before. At every insert the byte is stored inside the buffer,
  the bytes before the insertion point stay as they were, and the capacity grows by
  \<open>LSH_RL_BUFSIZE\<close> = 1024 exactly when the new insertion point reaches it.
\<close>

theorem typed_line_returned:
  assumes "\<forall>k \<in> set keys. 32 \<le> (of_char k :: int)" and "\<forall>n. alloc e n \<noteq> None"
    and "int (length keys) + LSH_RL_BUFSIZE \<le> INT_MAX"
  shows "(\<exists>w'. lsh_read_line e w (keys @ LF # rest) = Return (typed keys) w' rest \<and>
               tty w' = tty w) \<and>
         (\<forall>s c. editor_fits s \<and> 32 \<le> c \<and>
               (position s + 1 \<ge> bufsize s \<longrightarrow> bufsize s + LSH_RL_BUFSIZE \<le> INT_MAX) \<longrightarrow>
            (\<exists>w1 s1. insert_char e w s c = Continue w1 s1 \<and> editor_fits s1 \<and>
               bufsize s1 = (if position s + 1 \<ge> bufsize s then bufsize s + LSH_RL_BUFSIZE
                             else bufsize s) \<and>
               position s1 = position s + 1 \<and>
               typed_so_far s1 = typed_so_far s @ [char_of c]))"
proof
  obtain g where g: "alloc e LSH_RL_BUFSIZE = Some g"
    using assms(2) by auto
  let ?w0 = "enable_raw_mode w"
  let ?s0 = "\<lparr>bufsize = LSH_RL_BUFSIZE, position = 0, buffer = fresh_bytes g (nat LSH_RL_BUFSIZE),
              history_pos = count (shell_history w)\<rparr>"
  have ok0: "editor_fits ?s0" by (rule editor_fits_start)
  have t0: "typed_so_far ?s0 = []" by (simp add: typed_so_far_def)
  then have nul0: "NUL \<notin> set (typed_so_far ?s0)" by simp
  have bound0: "position ?s0 + int (length keys) + LSH_RL_BUFSIZE \<le> INT_MAX"
    using assms(3) by simp
  obtain w1 s1 where 1: "rl_loop e ?w0 ?s0 (keys @ LF # rest) = rl_loop e w1 s1 (LF # rest)"
      "same_world ?w0 w1" "editor_fits s1" "typed_so_far s1 = foldl apply_key (typed_so_far ?s0) keys"
      "NUL \<notin> set (typed_so_far s1)"
    using rl_loop_typed [OF assms(1,2) ok0 nul0 bound0, of ?w0 "LF # rest"] by blast
  obtain w2 where 2: "submit w1 s1 = Returned (typed_so_far s1) w2" "tty w2 = orig_termios w1"
    using submit_typed [OF editor_fits_ok [OF 1(3)] 1(5), of w1] by blast
  have "lsh_read_line e w (keys @ LF # rest) = Return (typed keys) w2 rest"
    using read_line_start [OF g] 1(1) rl_loop_submit [OF 2(1)] 1(4) t0 by (simp add: typed_def)
  moreover have "tty w2 = tty w"
    using 2(2) 1(2) by (simp add: same_world_def enable_raw_mode_def Let_def)
  ultimately show "\<exists>w'. lsh_read_line e w (keys @ LF # rest) = Return (typed keys) w' rest \<and>
               tty w' = tty w"
    by blast
next
  show "\<forall>s c. editor_fits s \<and> 32 \<le> c \<and>
               (position s + 1 \<ge> bufsize s \<longrightarrow> bufsize s + LSH_RL_BUFSIZE \<le> INT_MAX) \<longrightarrow>
            (\<exists>w1 s1. insert_char e w s c = Continue w1 s1 \<and> editor_fits s1 \<and>
               bufsize s1 = (if position s + 1 \<ge> bufsize s then bufsize s + LSH_RL_BUFSIZE
                             else bufsize s) \<and>
               position s1 = position s + 1 \<and>
               typed_so_far s1 = typed_so_far s @ [char_of c])"
  proof (intro allI impI)
    fix s :: editor and c :: int
    assume a: "editor_fits s \<and> 32 \<le> c \<and>
               (position s + 1 \<ge> bufsize s \<longrightarrow> bufsize s + LSH_RL_BUFSIZE \<le> INT_MAX)"
    then have "position s + 1 \<ge> bufsize s \<longrightarrow>
        alloc e (bufsize s + LSH_RL_BUFSIZE) \<noteq> None \<and> bufsize s + LSH_RL_BUFSIZE \<le> INT_MAX"
      using assms(2) by simp
    with a show "\<exists>w1 s1. insert_char e w s c = Continue w1 s1 \<and> editor_fits s1 \<and>
               bufsize s1 = (if position s + 1 \<ge> bufsize s then bufsize s + LSH_RL_BUFSIZE
                             else bufsize s) \<and>
               position s1 = position s + 1 \<and>
               typed_so_far s1 = typed_so_far s @ [char_of c]"
      using insert_typed [of s c e w] by blast
  qed
qed

theorem typed_line_returned_witness:
  "list_all (\<lambda>k. 32 \<le> (of_char k :: int)) (''ab'' @ [DEL] @ ''c'') \<and>
   (\<forall>n. alloc generous n \<noteq> None) \<and>
   int (length (''ab'' @ [DEL] @ ''c'')) + LSH_RL_BUFSIZE \<le> INT_MAX \<and>
   (\<exists>w'. lsh_read_line generous (session []) ((''ab'' @ [DEL] @ ''c'') @ LF # []) =
            Return ''ac'' w' [] \<and> tty w' = tty (session []))"
proof -
  have 1: "\<forall>k \<in> set (''ab'' @ [DEL] @ ''c''). 32 \<le> (of_char k :: int)"
    by (simp add: DEL_def)
  have 2: "\<forall>n. alloc generous n \<noteq> None"
    by (simp add: generous_def)
  have 3: "typed (''ab'' @ [DEL] @ ''c'') = ''ac''"
    by (simp add: typed_def apply_key_def DEL_def)
  have 4: "int (length (''ab'' @ [DEL] @ ''c'')) + LSH_RL_BUFSIZE \<le> INT_MAX"
    by (simp add: LSH_RL_BUFSIZE_def INT_MAX_def)
  show ?thesis
    using typed_line_returned [OF 1 2 4, of "session []" "[]"] 1 2 3 4
    by (simp add: list_all_iff)
qed

text \<open>
  The claim as the specification states it, for keys in any number, fails:
  \<open>position\<close> and \<open>bufsize\<close> are \<open>int\<close>s (lines 82-83). After \<open>2^31 - 1024\<close> letters the
  buffer of that many bytes is full, and \<open>bufsize += LSH_RL_BUFSIZE\<close> (line 170)
  overflows: no line is returned.
\<close>

theorem typed_line_returned_counterexample:
  "32 \<le> (of_char (CHR ''a'') :: int) \<and>
   lsh_read_line generous (session []) (replicate 2147482624 (CHR ''a'') @ [LF]) =
     Undefined IntOverflow"
proof -
  have 1: "alloc generous LSH_RL_BUFSIZE = Some (\<lambda>i. CHR ''?'')" "\<forall>n. alloc generous n \<noteq> None"
    by (simp_all add: generous_def)
  have 2: "32 \<le> (of_char (CHR ''a'') :: int)" "CHR ''a'' \<noteq> DEL"
    by (simp_all add: DEL_def)
  have 3: "int 2147482623 = 2147482623"
    by simp
  have n: "(2147482624::nat) = Suc 2147482623"
    by simp
  have "lsh_read_line generous (session []) (replicate (Suc 2147482623) (CHR ''a'') @ [LF]) =
        Undefined IntOverflow"
    by (rule line_overflows_int [OF 1 2 3])
  then have "lsh_read_line generous (session []) (replicate 2147482624 (CHR ''a'') @ [LF]) =
        Undefined IntOverflow"
    by (simp only: n)
  with 2(1) show ?thesis
    by (rule conjI)
qed

text \<open>
  C8 (the continue/stop contract of the dispatcher). \<open>lsh_execute\<close> on the empty token
  list returns 1 ("continue") and makes no call. When the first token is the name at
  position \<open>i\<close> of the builtin table, \<open>lsh_execute\<close> is the builtin at position \<open>i\<close>
  applied to the whole token list, its calls and its return value included. Every
  builtin returns, \<open>lsh_exit\<close> with 0 ("stop") and each of the other eleven with 1. A
  first token that is no builtin name is launched as a program; \<open>lsh_launch\<close> never
  returns 0, and it returns 1 in the shell's own process when \<open>fork\<close> fails or when
  the child terminates. So \<open>lsh_execute\<close> returns 0 exactly when the first token is
  \<open>exit\<close>.
\<close>

theorem execute_signals:
  "lsh_execute os hist [] = (Returns 1, []) \<and>
   (\<forall>i rest. i < lsh_num_builtins \<longrightarrow>
      lsh_execute os hist (builtin_str ! i # rest) =
        (builtin_func ! i) os hist (builtin_str ! i # rest)) \<and>
   map (\<lambda>f. fst (f os hist args)) builtin_func =
     map (\<lambda>b. Returns (if b = ''exit'' then 0 else 1)) builtin_str \<and>
   (\<forall>a rest. a \<notin> set builtin_str \<longrightarrow>
      lsh_execute os hist (a # rest) = lsh_launch os (a # rest)) \<and>
   fst (lsh_launch os args) \<noteq> Returns 0 \<and>
   (fork os < 0 \<or> (0 < fork os \<and> list_ex (\<lambda>st. st \<noteq> WStopped) (waitpid os)) \<longrightarrow>
      fst (lsh_launch os args) = Returns 1) \<and>
   (fst (lsh_execute os hist args) = Returns 0 \<longleftrightarrow> args \<noteq> [] \<and> hd args = ''exit'')"
proof -
  have "lsh_execute os hist [] = (Returns 1, [])"
    by (simp add: lsh_execute_def arg_def)
  then show ?thesis
    using execute_builtin [of _ os hist] execute_external [of _ os hist]
      builtin_table_returns [of os hist args] launch_not_stop [of os args]
      launch_returns [of os args] execute_stop_iff [of os hist args]
    by blast
qed

theorem execute_signals_witness:
  "(2::nat) < lsh_num_builtins \<and> builtin_str ! 2 = ''exit'' \<and>
   lsh_execute generous history_init [''exit''] = (Returns 0, []) \<and>
   lsh_execute generous history_init [] = (Returns 1, []) \<and>
   ''make'' \<notin> set builtin_str \<and> 0 < fork generous \<and>
   list_ex (\<lambda>st. st \<noteq> WStopped) (waitpid generous) \<and>
   fst (lsh_execute generous history_init [''make'', ''all'']) = Returns 1"
proof -
  have 1: "(2::nat) < lsh_num_builtins" "builtin_str ! 2 = ''exit''"
    by (simp_all add: lsh_num_builtins_def builtin_str_def)
  have 2: "''make'' \<notin> set builtin_str"
    by (simp add: builtin_str_def)
  have 3: "0 < fork generous" "list_ex (\<lambda>st. st \<noteq> WStopped) (waitpid generous)"
    by (simp_all add: generous_def)
  have 4: "builtin_func ! 2 = lsh_exit"
    by (simp add: builtin_func_def)
  note t = execute_signals [of generous history_init "[''make'', ''all'']"]
  have "lsh_execute generous history_init [''exit''] = (Returns 0, [])"
    using t 1 4 by (metis lsh_exit_def)
  moreover have "fst (lsh_execute generous history_init [''make'', ''all'']) = Returns 1"
    using t 2 3 by metis
  ultimately show ?thesis
    using t 1 2 3 by blast
qed

text \<open>
  C9 (the up arrow never underflows). Whatever bytes \<open>lsh_read_line\<close> is fed, it never
  reads the history at an index outside \<open>0 .. count - 1\<close>. The up arrow changes nothing
  when the history cursor is 0; when the cursor lies between 0 and \<open>count\<close> the up
  arrow recalls an entry at a valid index, and afterwards the cursor is one less (or
  still 0) and again between 0 and \<open>count\<close>.
\<close>

theorem history_index_in_range:
  assumes "0 \<le> count (shell_history w)"
  shows "lsh_read_line e w input \<noteq> Undefined HistoryIndex \<and>
         (\<forall>s. history_pos s = 0 \<longrightarrow> arrow_up w s = Continue w s) \<and>
         (\<forall>s. cursor_ok w s \<longrightarrow> arrow_up w s \<noteq> Fault HistoryIndex \<and>
            (\<forall>w1 s1. arrow_up w s = Continue w1 s1 \<longrightarrow>
               cursor_ok w1 s1 \<and> shell_history w1 = shell_history w \<and>
               (history_pos s1 = history_pos s - 1 \<or> history_pos s1 = 0)))"
proof (intro conjI allI impI)
  show "lsh_read_line e w input \<noteq> Undefined HistoryIndex"
  proof (cases "alloc e LSH_RL_BUFSIZE")
    case None
    then show ?thesis by (simp add: lsh_read_line_def)
  next
    case (Some g)
    have "cursor_ok (enable_raw_mode w)
            \<lparr>bufsize = LSH_RL_BUFSIZE, position = 0, buffer = fresh_bytes g (nat LSH_RL_BUFSIZE),
             history_pos = count (shell_history w)\<rparr>"
      using assms by (simp add: cursor_ok_def enable_raw_mode_def Let_def)
    from rl_loop_cursor [OF this] show ?thesis
      by (simp add: read_line_start [OF Some])
  qed
next
  fix s :: editor
  assume "history_pos s = 0"
  then show "arrow_up w s = Continue w s"
    by (simp add: arrow_up_def)
next
  fix s :: editor
  assume "cursor_ok w s"
  then show "arrow_up w s \<noteq> Fault HistoryIndex"
    by (rule arrow_up_cursor(1))
next
  fix s w1 s1
  assume c: "cursor_ok w s" and a: "arrow_up w s = Continue w1 s1"
  show "cursor_ok w1 s1" "shell_history w1 = shell_history w"
    using arrow_up_cursor(2) [OF c a] by simp_all
  show "history_pos s1 = history_pos s - 1 \<or> history_pos s1 = 0"
  proof (cases "history_pos s > 0")
    case True
    with a have "recall (CR # ''> %s'' @ ESC # ''[K'') w (s\<lparr>history_pos := history_pos s - 1\<rparr>) =
                 Continue w1 s1"
      by (simp add: arrow_up_def)
    from recall_cursor [OF this] show ?thesis by simp
  next
    case False
    with a c show ?thesis by (auto simp: arrow_up_def cursor_ok_def)
  qed
qed

theorem history_index_in_range_witness:
  "0 \<le> count (shell_history (session [''ls'', ''pwd''])) \<and>
   lsh_read_line generous (session [''ls'', ''pwd''])
     [ESC, CHR ''['', CHR ''A'', ESC, CHR ''['', CHR ''A'', ESC, CHR ''['', CHR ''A'', LF]
     \<noteq> Undefined HistoryIndex \<and>
   (\<exists>w'. lsh_read_line generous (session [''ls'', ''pwd''])
      [ESC, CHR ''['', CHR ''A'', ESC, CHR ''['', CHR ''A'', ESC, CHR ''['', CHR ''A'', LF] =
      Return ''ls'' w' [])"
proof -
  have c: "0 \<le> count (shell_history (session [''ls'', ''pwd'']))"
    by (simp add: session_def count_appends)
  have "\<exists>w'. lsh_read_line generous (session [''ls'', ''pwd''])
      [ESC, CHR ''['', CHR ''A'', ESC, CHR ''['', CHR ''A'', ESC, CHR ''['', CHR ''A'', LF] =
      Return ''ls'' w' []"
    by (simp add: lsh_read_line_def generous_def session_def rl_loop.simps escape_def
        arrow_up_def arrow_down_def recall_def strcpy_def c_str_def key_def submit_def emit_def
        enable_raw_mode_def disable_raw_mode_def Let_def count_appends appends_nth
        ESC_def LF_def NUL_def CR_def LSH_RL_BUFSIZE_def)
  then show ?thesis
    using history_index_in_range [OF c, of generous
        "[ESC, CHR ''['', CHR ''A'', ESC, CHR ''['', CHR ''A'', ESC, CHR ''['', CHR ''A'', LF]"] c
    by blast
qed

text \<open>
  C10 (the cap on the completion result) does not hold of the code. The readdir loop
  stops adding candidates when \<open>count\<close> has reached \<open>LSH_TOK_BUFSIZE\<close> = 64 (line 589),
  but the array has 64 slots (line 573) and the closing \<open>NULL\<close> goes to
  \<open>completions[count]\<close> (line 605): whenever 64 or more names match, and so whenever the
  cap leaves an entry out, that store is past the end of the array, and
  \<open>free_completions\<close> reads it back. The call has a defined result only when fewer
  than 64 names match, and then nothing is left out. Evaluated here: the empty partial
  in a directory of 52 entries, which with the 12 builtin names fill the 64 slots.
\<close>

theorem completions_overrun:
  "fst (get_completions p dir) =
     (if length (filter (\<lambda>b. strncmp p b (length p) = 0) builtin_str) +
         length (filter (\<lambda>e. strncmp p e (length p) = 0) dir) < 64
      then Inr (filter (\<lambda>b. strncmp p b (length p) = 0) builtin_str @
                filter (\<lambda>e. strncmp p e (length p) = 0) dir)
      else Inl BufferOverflow) \<and>
   length (match_entries []
     [''f01'', ''f02'', ''f03'', ''f04'', ''f05'', ''f06'', ''f07'', ''f08'', ''f09'',
      ''f10'', ''f11'', ''f12'', ''f13'', ''f14'', ''f15'', ''f16'', ''f17'', ''f18'',
      ''f19'', ''f20'', ''f21'', ''f22'', ''f23'', ''f24'', ''f25'', ''f26'', ''f27'',
      ''f28'', ''f29'', ''f30'', ''f31'', ''f32'', ''f33'', ''f34'', ''f35'', ''f36'',
      ''f37'', ''f38'', ''f39'', ''f40'', ''f41'', ''f42'', ''f43'', ''f44'', ''f45'',
      ''f46'', ''f47'', ''f48'', ''f49'', ''f50'', ''f51'', ''f52'']
     (match_builtins [] builtin_str [])) = 64 \<and>
   fst (get_completions []
     [''f01'', ''f02'', ''f03'', ''f04'', ''f05'', ''f06'', ''f07'', ''f08'', ''f09'',
      ''f10'', ''f11'', ''f12'', ''f13'', ''f14'', ''f15'', ''f16'', ''f17'', ''f18'',
      ''f19'', ''f20'', ''f21'', ''f22'', ''f23'', ''f24'', ''f25'', ''f26'', ''f27'',
      ''f28'', ''f29'', ''f30'', ''f31'', ''f32'', ''f33'', ''f34'', ''f35'', ''f36'',
      ''f37'', ''f38'', ''f39'', ''f40'', ''f41'', ''f42'', ''f43'', ''f44'', ''f45'',
      ''f46'', ''f47'', ''f48'', ''f49'', ''f50'', ''f51'', ''f52'']) = Inl BufferOverflow"
proof (intro conjI)
  show "fst (get_completions p dir) =
     (if length (filter (\<lambda>b. strncmp p b (length p) = 0) builtin_str) +
         length (filter (\<lambda>e. strncmp p e (length p) = 0) dir) < 64
      then Inr (filter (\<lambda>b. strncmp p b (length p) = 0) builtin_str @
                filter (\<lambda>e. strncmp p e (length p) = 0) dir)
      else Inl BufferOverflow)"
    by (rule completions_eq)
  show "length (match_entries []
     [''f01'', ''f02'', ''f03'', ''f04'', ''f05'', ''f06'', ''f07'', ''f08'', ''f09'',
      ''f10'', ''f11'', ''f12'', ''f13'', ''f14'', ''f15'', ''f16'', ''f17'', ''f18'',
      ''f19'', ''f20'', ''f21'', ''f22'', ''f23'', ''f24'', ''f25'', ''f26'', ''f27'',
      ''f28'', ''f29'', ''f30'', ''f31'', ''f32'', ''f33'', ''f34'', ''f35'', ''f36'',
      ''f37'', ''f38'', ''f39'', ''f40'', ''f41'', ''f42'', ''f43'', ''f44'', ''f45'',
      ''f46'', ''f47'', ''f48'', ''f49'', ''f50'', ''f51'', ''f52'']
     (match_builtins [] builtin_str [])) = 64"
    by (simp only: candidates_eq) (simp add: builtin_str_def)
  show "fst (get_completions []
     [''f01'', ''f02'', ''f03'', ''f04'', ''f05'', ''f06'', ''f07'', ''f08'', ''f09'',
      ''f10'', ''f11'', ''f12'', ''f13'', ''f14'', ''f15'', ''f16'', ''f17'', ''f18'',
      ''f19'', ''f20'', ''f21'', ''f22'', ''f23'', ''f24'', ''f25'', ''f26'', ''f27'',
      ''f28'', ''f29'', ''f30'', ''f31'', ''f32'', ''f33'', ''f34'', ''f35'', ''f36'',
      ''f37'', ''f38'', ''f39'', ''f40'', ''f41'', ''f42'', ''f43'', ''f44'', ''f45'',
      ''f46'', ''f47'', ''f48'', ''f49'', ''f50'', ''f51'', ''f52'']) = Inl BufferOverflow"
    by (simp add: completions_eq builtin_str_def)
qed

end
